theory Spec2Isabelle
  imports Main "HOL-Library.Word"
begin

unbundle bit_operations_syntax

section \<open>The tsearch stressor (stress-tsearch.c)\<close>

text \<open>
  The stressor fills a buffer of 32-bit keys, inserts the address of every element into a
  binary tree with \<open>tsearch\<close>, looks every element up with \<open>tfind\<close>, removes every element
  with \<open>tdelete\<close>, bumps the bogo-op counter and starts again while \<open>keep_stressing\<close> says so.

  The collaborators that are not part of stress-tsearch.c are parameters of the model:
  the settings, the random source \<open>stress_mwc16\<close>, the two continuation predicates, the
  allocator, and the tree library of \<open>search.h\<close>. The notifications of
  \<open>stress_set_proc_state\<close> have no effect on the function and are left out.
\<close>

subsection \<open>Constants\<close>

type_synonym int32 = "32 word"

definition TSEARCH_SIZE_SHIFT :: nat where
  "TSEARCH_SIZE_SHIFT = 22"

definition MIN_TSEARCH_SIZE :: nat where
  "MIN_TSEARCH_SIZE = 1 * 1024"

definition MAX_TSEARCH_SIZE :: nat where
  "MAX_TSEARCH_SIZE = 2 ^ TSEARCH_SIZE_SHIFT"

definition DEFAULT_TSEARCH_SIZE :: nat where
  "DEFAULT_TSEARCH_SIZE = 64 * 1024"

datatype exit_code = EXIT_SUCCESS | EXIT_NO_RESOURCE

subsection \<open>Collaborators\<close>

text \<open>
  \<open>setting\<close> is what \<open>stress_get_setting("tsearch-size")\<close> finds, \<open>maximize\<close>, \<open>minimize\<close> and
  \<open>verify\<close> are the bits of \<open>g_opt_flags\<close>, \<open>calloc_ok\<close> tells whether the key buffer can be
  allocated. The remaining fields are the answers of stateful collaborators, indexed by
  the number of earlier calls: \<open>mwc16 k\<close> is the value of the k-th call of \<open>stress_mwc16()\<close>,
  \<open>malloc_ok k\<close> tells whether the allocator can serve a node during the k-th call of
  \<open>tsearch\<close>, \<open>flag k\<close> is the k-th answer of \<open>keep_stressing_flag()\<close> and \<open>keep k\<close> the k-th
  answer of \<open>keep_stressing(args)\<close>.
\<close>

record env =
  setting :: "nat option"
  maximize :: bool
  minimize :: bool
  verify :: bool
  calloc_ok :: bool
  mwc16 :: "nat \<Rightarrow> 16 word"
  malloc_ok :: "nat \<Rightarrow> bool"
  flag :: "nat \<Rightarrow> bool"
  keep :: "nat \<Rightarrow> bool"

text \<open>
  The tree library, over any representation \<open>'t\<close> of the root pointer. A key is the
  address of an element of the buffer, that is, its index; the library reads the element
  through the buffer. \<open>tsearch ok d k t\<close> is \<open>None\<close> when the C function returns \<open>NULL\<close>,
  otherwise the key held by the node it returns and the new root; \<open>tfind d k t\<close> is the key
  held by the node found; \<open>tdelete d k t\<close> is the key of the node removed (\<open>None\<close> for
  \<open>NULL\<close>) and the new root.
\<close>

record 't tree_ops =
  null :: 't
  tsearch :: "bool \<Rightarrow> int32 list \<Rightarrow> nat \<Rightarrow> 't \<Rightarrow> (nat \<times> 't) option"
  tfind :: "int32 list \<Rightarrow> nat \<Rightarrow> 't \<Rightarrow> nat option"
  tdelete :: "int32 list \<Rightarrow> nat \<Rightarrow> 't \<Rightarrow> nat option \<times> 't"

subsection \<open>State and observable events\<close>

datatype failure =
    Out_of_memory
  | Not_found nat
  | Mismatch nat int32 int32

text \<open>
  Every call of a collaborator that a claim speaks about is recorded, in order:
  the three tree calls with the index of the element, the answers of the two
  continuation predicates, \<open>inc_counter\<close>, each \<open>pr_fail\<close> and the \<open>pr_err\<close> of the
  populate phase.
\<close>

datatype event =
    Ev_tsearch nat
  | Ev_tfind nat
  | Ev_tdelete nat
  | Ev_flag bool
  | Ev_keep bool
  | Ev_inc
  | Ev_fail failure
  | Ev_err

text \<open>
  \<open>data\<close> is the key buffer, \<open>root\<close> the tree of the running cycle, \<open>counter\<close> the bogo-op
  counter behind \<open>inc_counter\<close> (counted from the start of the run); \<open>draws\<close>, \<open>searches\<close>,
  \<open>flags\<close> and \<open>keeps\<close> count the calls made so far of \<open>stress_mwc16\<close>, \<open>tsearch\<close>,
  \<open>keep_stressing_flag\<close> and \<open>keep_stressing\<close>.
\<close>

record 't state =
  data :: "int32 list"
  root :: 't
  counter :: nat
  draws :: nat
  searches :: nat
  flags :: nat
  keeps :: nat
  log :: "event list"

definition emit :: "event list \<Rightarrow> 't state \<Rightarrow> 't state" where
  "emit es st = st\<lparr>log := log st @ es\<rparr>"

definition pr_fail :: "failure \<Rightarrow> 't state \<Rightarrow> 't state" where
  "pr_fail f st = emit [Ev_fail f] st"

definition inc_counter :: "'t state \<Rightarrow> 't state" where
  "inc_counter st = emit [Ev_inc] (st\<lparr>counter := Suc (counter st)\<rparr>)"

text \<open>The events a state \<open>st'\<close> has recorded since an earlier state \<open>st\<close>.\<close>

definition emitted :: "'t state \<Rightarrow> 't state \<Rightarrow> event list" where
  "emitted st st' = drop (length (log st)) (log st')"

fun is_report :: "event \<Rightarrow> bool" where
  "is_report (Ev_fail f) = True"
| "is_report e = False"

fun is_scan :: "event \<Rightarrow> bool" where
  "is_scan (Ev_flag b) = True"
| "is_scan (Ev_tfind i) = True"
| "is_scan e = False"

text \<open>
  Two views of a list of events: without the diagnostics, and without the diagnostics and
  the events of the lookup phase.
\<close>

definition calls :: "event list \<Rightarrow> event list" where
  "calls es = filter (\<lambda>e. \<not> is_report e) es"

definition updates :: "event list \<Rightarrow> event list" where
  "updates es = filter (\<lambda>e. \<not> is_report e \<and> \<not> is_scan e) es"

subsection \<open>Key generation\<close>

text \<open>
  \<open>(int32_t)(((stress_mwc16() & 0xfff) << TSEARCH_SIZE_SHIFT) ^ i)\<close>: the masked draw is an
  \<open>int\<close>, the shift is taken in 32 bits (the bits pushed beyond bit 31 are lost, as the
  compiled code does), the result is converted to the 64-bit \<open>size_t\<close> of \<open>i\<close> with sign
  extension, and the exclusive or is cut back to 32 bits.
\<close>

definition tsearch_key :: "16 word \<Rightarrow> nat \<Rightarrow> int32" where
  "tsearch_key r i =
     ucast ((scast (push_bit TSEARCH_SIZE_SHIFT (ucast (r AND 0xfff) :: 32 word)) :: 64 word)
            XOR (word_of_nat i :: 64 word))"

subsection \<open>The three phases\<close>

text \<open>The element count \<open>n\<close>, from the setting or the defaults.\<close>

definition tsearch_size :: "env \<Rightarrow> nat" where
  "tsearch_size env =
     (case setting env of
        Some s \<Rightarrow> s
      | None \<Rightarrow>
          (let s = DEFAULT_TSEARCH_SIZE;
               s = (if maximize env then MAX_TSEARCH_SIZE else s);
               s = (if minimize env then MIN_TSEARCH_SIZE else s)
           in s))"

text \<open>
  One round of the populate loop: write \<open>data[i]\<close>, call \<open>tsearch\<close>. \<open>Inl\<close> is the state
  in which \<open>tsearch\<close> has returned \<open>NULL\<close>.
\<close>

definition populate_elem :: "'t tree_ops \<Rightarrow> env \<Rightarrow> nat \<Rightarrow> 't state \<Rightarrow> 't state + 't state" where
  "populate_elem ops env i st =
     (let d = (data st)[i := tsearch_key (mwc16 env (draws st)) i];
          st1 = emit [Ev_tsearch i]
                  (st\<lparr>data := d, draws := Suc (draws st), searches := Suc (searches st)\<rparr>)
      in case tsearch ops (malloc_ok env (searches st)) d i (root st) of
           None \<Rightarrow> Inl st1
         | Some (p, t) \<Rightarrow> Inr (st1\<lparr>root := t\<rparr>))"

text \<open>\<open>for (j = 0; j < i; j++) tdelete(&data[j], &root, ...)\<close> on the failure path.\<close>

function cleanup :: "'t tree_ops \<Rightarrow> nat \<Rightarrow> nat \<Rightarrow> 't state \<Rightarrow> 't state" where
  "cleanup ops i j st =
     (if j < i
      then cleanup ops i (Suc j)
             (emit [Ev_tdelete j] (st\<lparr>root := snd (tdelete ops (data st) j (root st))\<rparr>))
      else st)"
  by pat_completeness auto
termination
  by (relation "measure (\<lambda>(ops, i, j, st). i - j)") auto

text \<open>Step 1. \<open>Inl\<close> is the \<open>goto abort\<close>, after the error message and the clean-up.\<close>

function populate :: "'t tree_ops \<Rightarrow> env \<Rightarrow> nat \<Rightarrow> nat \<Rightarrow> 't state \<Rightarrow> 't state + 't state" where
  "populate ops env n i st =
     (if i < n
      then (case populate_elem ops env i st of
              Inl st1 \<Rightarrow> Inl (cleanup ops i 0 (emit [Ev_err] st1))
            | Inr st1 \<Rightarrow> populate ops env n (Suc i) st1)
      else Inr st)"
  by pat_completeness auto
termination
  by (relation "measure (\<lambda>(ops, env, n, i, st). n - i)") auto

text \<open>The \<open>pr_fail\<close> calls of the verification block of step 2, for element \<open>i\<close>.\<close>

definition verify_find :: "'t tree_ops \<Rightarrow> env \<Rightarrow> int32 list \<Rightarrow> 't \<Rightarrow> nat \<Rightarrow> event list" where
  "verify_find ops env d t i =
     (if verify env
      then (case tfind ops d i t of
              None \<Rightarrow> [Ev_fail (Not_found i)]
            | Some x \<Rightarrow>
                (if d ! x \<noteq> d ! i then [Ev_fail (Mismatch i (d ! x) (d ! i))] else []))
      else [])"

definition find_elem :: "'t tree_ops \<Rightarrow> env \<Rightarrow> nat \<Rightarrow> 't state \<Rightarrow> 't state" where
  "find_elem ops env i st =
     emit (Ev_tfind i # verify_find ops env (data st) (root st) i) st"

text \<open>
  Step 2: \<open>for (i = 0; keep_stressing_flag() && i < n; i++)\<close>. The flag is read first,
  at every test of the loop condition.
\<close>

function lookup :: "'t tree_ops \<Rightarrow> env \<Rightarrow> nat \<Rightarrow> nat \<Rightarrow> 't state \<Rightarrow> 't state" where
  "lookup ops env n i st =
     (if flag env (flags st) \<and> i < n
      then lookup ops env n (Suc i)
             (find_elem ops env i (emit [Ev_flag True] (st\<lparr>flags := Suc (flags st)\<rparr>)))
      else emit [Ev_flag (flag env (flags st))] (st\<lparr>flags := Suc (flags st)\<rparr>))"
  by pat_completeness auto
termination
  by (relation "measure (\<lambda>(ops, env, n, i, st). n - i)") auto

text \<open>The \<open>pr_fail\<close> call of step 3, for element \<open>i\<close> and the result of \<open>tdelete\<close>.\<close>

definition verify_delete :: "env \<Rightarrow> nat option \<Rightarrow> nat \<Rightarrow> event list" where
  "verify_delete env result i =
     (if verify env \<and> result = None then [Ev_fail (Not_found i)] else [])"

definition delete_elem :: "'t tree_ops \<Rightarrow> env \<Rightarrow> nat \<Rightarrow> 't state \<Rightarrow> 't state" where
  "delete_elem ops env i st =
     (case tdelete ops (data st) i (root st) of
        (result, t) \<Rightarrow> emit (Ev_tdelete i # verify_delete env result i) (st\<lparr>root := t\<rparr>))"

text \<open>Step 3: \<open>for (i = 0; i < n; i++)\<close>.\<close>

function drain :: "'t tree_ops \<Rightarrow> env \<Rightarrow> nat \<Rightarrow> nat \<Rightarrow> 't state \<Rightarrow> 't state" where
  "drain ops env n i st =
     (if i < n then drain ops env n (Suc i) (delete_elem ops env i st) else st)"
  by pat_completeness auto
termination
  by (relation "measure (\<lambda>(ops, env, n, i, st). n - i)") auto

subsection \<open>The cycle and the run\<close>

text \<open>The body of the \<open>do\<close> loop; \<open>Inl\<close> is the \<open>goto abort\<close>.\<close>

definition cycle :: "'t tree_ops \<Rightarrow> env \<Rightarrow> nat \<Rightarrow> 't state \<Rightarrow> 't state + 't state" where
  "cycle ops env n st =
     (case populate ops env n 0 (st\<lparr>root := null ops\<rparr>) of
        Inl st1 \<Rightarrow> Inl st1
      | Inr st1 \<Rightarrow> Inr (inc_counter (drain ops env n 0 (lookup ops env n 0 st1))))"

text \<open>
  \<open>do { ... } while (keep_stressing(args))\<close>. The loop has no bound of its own, so a run
  that is never told to stop has no result (\<open>None\<close>).
\<close>

partial_function (option) do_while :: "'t tree_ops \<Rightarrow> env \<Rightarrow> nat \<Rightarrow> 't state \<Rightarrow> 't state option" where
  "do_while ops env n st =
     (case cycle ops env n st of
        Inl st1 \<Rightarrow> Some st1
      | Inr st1 \<Rightarrow>
          (if keep env (keeps st1)
           then do_while ops env n (emit [Ev_keep True] (st1\<lparr>keeps := Suc (keeps st1)\<rparr>))
           else Some (emit [Ev_keep False] (st1\<lparr>keeps := Suc (keeps st1)\<rparr>))))"

declare do_while.simps [code]

text \<open>The state after \<open>calloc\<close> has succeeded: \<open>n\<close> zeroed elements, nothing called yet.\<close>

definition init_state :: "'t tree_ops \<Rightarrow> int32 list \<Rightarrow> 't state" where
  "init_state ops d =
     \<lparr>data = d, root = null ops, counter = 0, draws = 0, searches = 0, flags = 0, keeps = 0,
      log = []\<rparr>"

text \<open>
  \<open>stress_tsearch\<close>: the exit code and the final state (the buffer as it is just before
  \<open>free\<close>). Both ways out of the loop reach the label \<open>abort\<close> and its
  \<open>return EXIT_SUCCESS\<close>.
\<close>

definition stress_tsearch :: "'t tree_ops \<Rightarrow> env \<Rightarrow> (exit_code \<times> 't state) option" where
  "stress_tsearch ops env =
     (let n = tsearch_size env in
      if \<not> calloc_ok env
      then Some (EXIT_NO_RESOURCE, pr_fail Out_of_memory (init_state ops []))
      else (case do_while ops env n (init_state ops (replicate n 0)) of
              None \<Rightarrow> None
            | Some st \<Rightarrow> Some (EXIT_SUCCESS, st)))"

declare cleanup.simps [simp del]
declare populate.simps [simp del]
declare lookup.simps [simp del]
declare drain.simps [simp del]

section \<open>The tree library\<close>

text \<open>
  Modelled from the spec: \<open>tsearch\<close>, \<open>tfind\<close> and \<open>tdelete\<close> belong to the C library
  (\<open>search.h\<close>) and \<open>stress_sort_cmp_int32\<close> to core-sort.c; none of them is under src/. The
  spec describes them as an unbalanced binary search tree whose nodes hold a reference to
  a buffer element, ordered by a strict total comparison of the 32-bit signed values.
\<close>

datatype tree = Leaf | Node tree nat tree

text \<open>Modelled from the spec: the ordering function (core-sort.c), on signed values.\<close>

definition stress_sort_cmp_int32 :: "int32 \<Rightarrow> int32 \<Rightarrow> int" where
  "stress_sort_cmp_int32 a b = (if sint a < sint b then - 1 else if sint b < sint a then 1 else 0)"

text \<open>
  Modelled from the spec: \<open>insert\<close> descends comparing the key with each node's key, returns
  an equal node unchanged, otherwise links a new leaf; it fails when the node cannot be
  allocated.
\<close>

fun tree_insert :: "bool \<Rightarrow> int32 list \<Rightarrow> nat \<Rightarrow> tree \<Rightarrow> (nat \<times> tree) option" where
  "tree_insert ok d k Leaf = (if ok then Some (k, Node Leaf k Leaf) else None)"
| "tree_insert ok d k (Node l x r) =
     (let c = stress_sort_cmp_int32 (d ! k) (d ! x) in
      if c = 0 then Some (x, Node l x r)
      else if c < 0
      then (case tree_insert ok d k l of
              None \<Rightarrow> None
            | Some (p, l') \<Rightarrow> Some (p, Node l' x r))
      else (case tree_insert ok d k r of
              None \<Rightarrow> None
            | Some (p, r') \<Rightarrow> Some (p, Node l x r')))"

text \<open>Modelled from the spec: \<open>find\<close> descends the same way and allocates nothing.\<close>

fun tree_find :: "int32 list \<Rightarrow> nat \<Rightarrow> tree \<Rightarrow> nat option" where
  "tree_find d k Leaf = None"
| "tree_find d k (Node l x r) =
     (let c = stress_sort_cmp_int32 (d ! k) (d ! x) in
      if c = 0 then Some x
      else if c < 0 then tree_find d k l
      else tree_find d k r)"

text \<open>The key of the leftmost node of the tree \<open>Node l x r\<close>, given as \<open>leftmost l x\<close>.\<close>

fun leftmost :: "tree \<Rightarrow> nat \<Rightarrow> nat" where
  "leftmost Leaf x = x"
| "leftmost (Node l y r) x = leftmost l y"

text \<open>
  Modelled from the spec: \<open>delete\<close> descends to the matching node; without children the
  node is detached, with one child the child takes its place, with two children the key
  of the in-order successor (the leftmost node of the right subtree) moves into the node
  and the successor is removed from the right subtree by a recursive delete.
\<close>

fun tree_delete :: "int32 list \<Rightarrow> nat \<Rightarrow> tree \<Rightarrow> nat option \<times> tree" where
  "tree_delete d k Leaf = (None, Leaf)"
| "tree_delete d k (Node l x r) =
     (let c = stress_sort_cmp_int32 (d ! k) (d ! x) in
      if c < 0 then (case tree_delete d k l of (res, l') \<Rightarrow> (res, Node l' x r))
      else if 0 < c then (case tree_delete d k r of (res, r') \<Rightarrow> (res, Node l x r'))
      else (case r of
              Leaf \<Rightarrow> (Some x, l)
            | Node rl y rr \<Rightarrow>
                (case l of
                   Leaf \<Rightarrow> (Some x, r)
                 | Node ll z lr \<Rightarrow>
                     (let m = leftmost rl y
                      in (Some x, Node l m (snd (tree_delete d m r)))))))"

definition bst_ops :: "tree tree_ops" where
  "bst_ops = \<lparr>null = Leaf, tsearch = tree_insert, tfind = tree_find, tdelete = tree_delete\<rparr>"

text \<open>The keys held by a tree, and the ordering invariant over a buffer \<open>d\<close>.\<close>

fun keys :: "tree \<Rightarrow> nat set" where
  "keys Leaf = {}"
| "keys (Node l x r) = keys l \<union> {x} \<union> keys r"

fun bst :: "int32 list \<Rightarrow> tree \<Rightarrow> bool" where
  "bst d Leaf = True"
| "bst d (Node l x r) =
     (bst d l \<and> bst d r \<and>
      (\<forall>y \<in> keys l. sint (d ! y) < sint (d ! x)) \<and>
      (\<forall>y \<in> keys r. sint (d ! x) < sint (d ! y)))"

text \<open>The values a tree refers to.\<close>

definition vals :: "int32 list \<Rightarrow> tree \<Rightarrow> int32 set" where
  "vals d t = (\<lambda>x. d ! x) ` keys t"

text \<open>Inserting the elements \<open>ks\<close> of the buffer one after the other, as step 1 does.\<close>

fun insert_all :: "int32 list \<Rightarrow> nat list \<Rightarrow> tree \<Rightarrow> tree" where
  "insert_all d [] t = t"
| "insert_all d (k # ks) t =
     (case tree_insert True d k t of
        None \<Rightarrow> t
      | Some (p, t') \<Rightarrow> insert_all d ks t')"

section \<open>Concrete runs\<close>

text \<open>
  Environments and a faulty tree library at which the theorems below are instantiated.
  \<open>env_small\<close> cancels the lookup phase after its first element; \<open>env_run\<close> asks for 1024
  elements and lets exactly three cycles run; \<open>env_no_buffer\<close> cannot allocate the key
  buffer; \<open>env_node_fail\<close> runs out of tree nodes at the fourth insertion; \<open>env_cancel\<close>
  has the cancellation flag down from the start; \<open>faulty_ops\<close> is a tree library whose
  \<open>tfind\<close> misses element 0 and answers with the node of element 0 for every other
  element, and whose \<open>tdelete\<close> never finds anything.
\<close>

definition env_small :: env where
  "env_small =
     \<lparr>setting = None, maximize = False, minimize = False, verify = True, calloc_ok = True,
      mwc16 = (\<lambda>k. if k = 0 then 5 else 3), malloc_ok = (\<lambda>k. True),
      flag = (\<lambda>k. k < 1), keep = (\<lambda>k. False)\<rparr>"

definition env_run :: env where
  "env_run =
     \<lparr>setting = Some 1024, maximize = False, minimize = False, verify = True, calloc_ok = True,
      mwc16 = (\<lambda>k. if k < 2048 then 0 else 1), malloc_ok = (\<lambda>k. True),
      flag = (\<lambda>k. True), keep = (\<lambda>k. k < 2)\<rparr>"

definition env_no_buffer :: env where
  "env_no_buffer = env_run\<lparr>calloc_ok := False\<rparr>"

definition env_node_fail :: env where
  "env_node_fail = env_run\<lparr>malloc_ok := (\<lambda>k. k < 3)\<rparr>"

definition env_cancel :: env where
  "env_cancel = env_run\<lparr>flag := (\<lambda>k. False), keep := (\<lambda>k. False)\<rparr>"

definition faulty_ops :: "tree tree_ops" where
  "faulty_ops =
     bst_ops\<lparr>tfind := (\<lambda>d k t. if k = 0 then None else Some 0),
             tdelete := (\<lambda>d k t. (None, t))\<rparr>"

section \<open>The loops\<close>

lemma key_low_bits:
  "take_bit 22 (tsearch_key r i) = take_bit 22 (word_of_nat i :: 32 word)"
  unfolding tsearch_key_def TSEARCH_SIZE_SHIFT_def
  by (rule bit_word_eqI) (auto simp add: bit_simps)

lemma unat_low_bits:
  "i < 2 ^ 22 \<Longrightarrow> unat (take_bit 22 (word_of_nat i :: 32 word)) = i"
  by (simp add: unsigned_take_bit_eq unat_of_nat take_bit_nat_eq_self)

lemma tsearch_key_inj:
  assumes "i < 2 ^ 22" "j < 2 ^ 22" "tsearch_key r i = tsearch_key r' j"
  shows "i = j"
proof -
  from assms(3) have "take_bit 22 (tsearch_key r i) = take_bit 22 (tsearch_key r' j)"
    by simp
  then have "unat (take_bit 22 (word_of_nat i :: 32 word))
           = unat (take_bit 22 (word_of_nat j :: 32 word))"
    by (simp only: key_low_bits)
  with assms(1,2) show ?thesis
    by (simp only: unat_low_bits)
qed

lemma emit_fields [simp]:
  "data (emit es st) = data st" "root (emit es st) = root st"
  "counter (emit es st) = counter st" "draws (emit es st) = draws st"
  "searches (emit es st) = searches st" "flags (emit es st) = flags st"
  "keeps (emit es st) = keeps st" "log (emit es st) = log st @ es"
  by (simp_all add: emit_def)

lemma populate_elem_Inr:
  "populate_elem ops env i st = Inr st1 \<Longrightarrow>
     data st1 = (data st)[i := tsearch_key (mwc16 env (draws st)) i] \<and>
     draws st1 = Suc (draws st) \<and> searches st1 = Suc (searches st) \<and>
     counter st1 = counter st \<and> flags st1 = flags st \<and> keeps st1 = keeps st \<and>
     log st1 = log st @ [Ev_tsearch i] \<and>
     (\<exists>p. tsearch ops (malloc_ok env (searches st)) (data st1) i (root st) = Some (p, root st1))"
  by (auto simp: populate_elem_def Let_def split: option.splits)

lemma populate_elem_Inl:
  "populate_elem ops env i st = Inl st1 \<Longrightarrow>
     data st1 = (data st)[i := tsearch_key (mwc16 env (draws st)) i] \<and>
     draws st1 = Suc (draws st) \<and> searches st1 = Suc (searches st) \<and>
     counter st1 = counter st \<and> flags st1 = flags st \<and> keeps st1 = keeps st \<and>
     log st1 = log st @ [Ev_tsearch i] \<and> root st1 = root st \<and>
     tsearch ops (malloc_ok env (searches st)) (data st1) i (root st) = None"
  by (auto simp: populate_elem_def Let_def split: option.splits)

lemma populate_data:
  "populate ops env n i st = Inr st' \<Longrightarrow> i \<le> n \<Longrightarrow> n \<le> length (data st) \<Longrightarrow>
     length (data st') = length (data st) \<and>
     draws st' = draws st + (n - i) \<and>
     (\<forall>j. j < i \<or> n \<le> j \<longrightarrow> data st' ! j = data st ! j) \<and>
     (\<forall>j. i \<le> j \<and> j < n \<longrightarrow> data st' ! j = tsearch_key (mwc16 env (draws st + (j - i))) j)"
proof (induction ops env n i st rule: populate.induct)
  case (1 ops env n i st)
  show ?case
  proof (cases "i < n")
    case False
    with "1.prems" show ?thesis by (auto simp add: populate.simps)
  next
    case True
    with "1.prems" obtain st1 where e: "populate_elem ops env i st = Inr st1"
      and r: "populate ops env n (Suc i) st1 = Inr st'"
      by (auto simp: populate.simps split: sum.splits)
    note f = populate_elem_Inr [OF e]
    from f "1.prems" True have len: "n \<le> length (data st1)" by simp
    from "1.IH" [OF True e r] True len
    have ih: "length (data st') = length (data st1)"
      "draws st' = draws st1 + (n - Suc i)"
      "\<forall>j. j < Suc i \<or> n \<le> j \<longrightarrow> data st' ! j = data st1 ! j"
      "\<forall>j. Suc i \<le> j \<and> j < n \<longrightarrow> data st' ! j = tsearch_key (mwc16 env (draws st1 + (j - Suc i))) j"
      by simp_all
    have a: "length (data st') = length (data st)" using ih(1) f by simp
    have b: "draws st' = draws st + (n - i)" using ih(2) f True by simp
    have c: "\<forall>j. j < i \<or> n \<le> j \<longrightarrow> data st' ! j = data st ! j"
      using ih(3) f True by (auto simp: nth_list_update)
    have d: "\<forall>j. i \<le> j \<and> j < n \<longrightarrow> data st' ! j = tsearch_key (mwc16 env (draws st + (j - i))) j"
    proof (intro allI impI)
      fix j assume j: "i \<le> j \<and> j < n"
      show "data st' ! j = tsearch_key (mwc16 env (draws st + (j - i))) j"
      proof (cases "j = i")
        case True
        with ih(3) f j "1.prems" show ?thesis by (simp add: nth_list_update)
      next
        case False
        with j have "Suc i \<le> j \<and> j < n" by simp
        with ih(4) have "data st' ! j = tsearch_key (mwc16 env (draws st1 + (j - Suc i))) j" by blast
        moreover have "draws st1 = Suc (draws st)" using f by simp
        then have "draws st1 + (j - Suc i) = draws st + (j - i)" using j False by arith
        ultimately show ?thesis by simp
      qed
    qed
    from a b c d show ?thesis by blast
  qed
qed


lemma emitted_append: "log st' = log st @ L \<Longrightarrow> emitted st st' = L"
  by (simp add: emitted_def)

lemma cleanup_step:
  "j < i \<Longrightarrow> cleanup ops i j st =
     cleanup ops i (Suc j) (emit [Ev_tdelete j] (st\<lparr>root := snd (tdelete ops (data st) j (root st))\<rparr>))"
  by (subst cleanup.simps) simp

lemma cleanup_stop: "\<not> j < i \<Longrightarrow> cleanup ops i j st = st"
  by (subst cleanup.simps) simp

lemma populate_step:
  "i < n \<Longrightarrow> populate ops env n i st =
     (case populate_elem ops env i st of
        Inl st1 \<Rightarrow> Inl (cleanup ops i 0 (emit [Ev_err] st1))
      | Inr st1 \<Rightarrow> populate ops env n (Suc i) st1)"
  by (subst populate.simps) simp

lemma populate_stop: "\<not> i < n \<Longrightarrow> populate ops env n i st = Inr st"
  by (subst populate.simps) simp

lemma lookup_step:
  "flag env (flags st) \<Longrightarrow> i < n \<Longrightarrow> lookup ops env n i st =
     lookup ops env n (Suc i)
       (find_elem ops env i (emit [Ev_flag True] (st\<lparr>flags := Suc (flags st)\<rparr>)))"
  by (subst lookup.simps) simp

lemma lookup_stop:
  "\<not> (flag env (flags st) \<and> i < n) \<Longrightarrow> lookup ops env n i st =
     emit [Ev_flag (flag env (flags st))] (st\<lparr>flags := Suc (flags st)\<rparr>)"
  by (subst lookup.simps) (rule if_not_P)

lemma drain_step:
  "i < n \<Longrightarrow> drain ops env n i st = drain ops env n (Suc i) (delete_elem ops env i st)"
  by (subst drain.simps) simp

lemma drain_stop: "\<not> i < n \<Longrightarrow> drain ops env n i st = st"
  by (subst drain.simps) simp

lemma cleanup_fields:
  "data (cleanup ops i j st) = data st \<and> counter (cleanup ops i j st) = counter st \<and>
   draws (cleanup ops i j st) = draws st \<and> searches (cleanup ops i j st) = searches st \<and>
   flags (cleanup ops i j st) = flags st \<and> keeps (cleanup ops i j st) = keeps st"
proof (induction ops i j st rule: cleanup.induct)
  case (1 ops i j st)
  show ?case
  proof (cases "j < i")
    case True
    with "1.IH" show ?thesis by (simp add: cleanup_step)
  next
    case False
    then show ?thesis by (simp add: cleanup_stop)
  qed
qed

lemma cleanup_log:
  "j \<le> i \<Longrightarrow> log (cleanup ops i j st) = log st @ map Ev_tdelete [j..<i]"
proof (induction ops i j st rule: cleanup.induct)
  case (1 ops i j st)
  show ?case
  proof (cases "j < i")
    case True
    with "1.IH" show ?thesis
      by (simp add: cleanup_step upt_conv_Cons)
  next
    case False
    with "1.prems" show ?thesis by (simp add: cleanup_stop)
  qed
qed

lemma populate_Inr:
  "populate ops env n i st = Inr st' \<Longrightarrow> i \<le> n \<Longrightarrow>
     log st' = log st @ map Ev_tsearch [i..<n] \<and>
     counter st' = counter st \<and> flags st' = flags st \<and> keeps st' = keeps st \<and>
     searches st' = searches st + (n - i) \<and> draws st' = draws st + (n - i) \<and>
     length (data st') = length (data st)"
proof (induction ops env n i st rule: populate.induct)
  case (1 ops env n i st)
  show ?case
  proof (cases "i < n")
    case False
    with "1.prems" show ?thesis by (auto simp add: populate_stop)
  next
    case True
    with "1.prems" obtain st1 where e: "populate_elem ops env i st = Inr st1"
      and r: "populate ops env n (Suc i) st1 = Inr st'"
      by (auto simp: populate_step split: sum.splits)
    note f = populate_elem_Inr [OF e]
    from "1.IH" [OF True e r] True f show ?thesis
      by (auto simp add: upt_conv_Cons)
  qed
qed

lemma populate_Inl:
  "populate ops env n i st = Inl st' \<Longrightarrow>
     (\<exists>f. i \<le> f \<and> f < n \<and>
        log st' = log st @ map Ev_tsearch [i..<Suc f] @ [Ev_err] @ map Ev_tdelete [0..<f] \<and>
        draws st' = draws st + (Suc f - i) \<and>
        searches st' = searches st + (Suc f - i)) \<and>
     counter st' = counter st \<and> flags st' = flags st \<and> keeps st' = keeps st"
proof (induction ops env n i st rule: populate.induct)
  case (1 ops env n i st)
  have lt: "i < n"
  proof (rule ccontr)
    assume "\<not> i < n"
    with "1.prems" show False by (simp add: populate_stop)
  qed
  show ?case
  proof (cases "populate_elem ops env i st")
    case (Inl st1)
    with "1.prems" lt have eq: "st' = cleanup ops i 0 (emit [Ev_err] st1)"
      by (simp add: populate_step)
    note f = populate_elem_Inl [OF Inl]
    have "log st' = log st @ map Ev_tsearch [i..<Suc i] @ [Ev_err] @ map Ev_tdelete [0..<i]"
      using f by (simp add: eq cleanup_log)
    moreover have "draws st' = draws st + (Suc i - i)" "searches st' = searches st + (Suc i - i)"
      using f by (simp_all add: eq cleanup_fields)
    moreover have "counter st' = counter st" "flags st' = flags st" "keeps st' = keeps st"
      using f by (simp_all add: eq cleanup_fields)
    ultimately show ?thesis using lt by blast
  next
    case (Inr st1)
    with "1.prems" lt have r: "populate ops env n (Suc i) st1 = Inl st'"
      by (simp add: populate_step)
    note f = populate_elem_Inr [OF Inr]
    from "1.IH" [OF lt Inr r] obtain g where g: "Suc i \<le> g" "g < n"
      "log st' = log st1 @ map Ev_tsearch [Suc i..<Suc g] @ [Ev_err] @ map Ev_tdelete [0..<g]"
      "draws st' = draws st1 + (Suc g - Suc i)" "searches st' = searches st1 + (Suc g - Suc i)"
      and rest: "counter st' = counter st1" "flags st' = flags st1" "keeps st' = keeps st1"
      by blast
    have "[i..<Suc g] = i # [Suc i..<Suc g]" using g(1) by (simp add: upt_conv_Cons)
    then have "log st' = log st @ map Ev_tsearch [i..<Suc g] @ [Ev_err] @ map Ev_tdelete [0..<g]"
      using g(3) f by simp
    moreover have "draws st' = draws st + (Suc g - i)" "searches st' = searches st + (Suc g - i)"
      using g f by simp_all
    moreover have "i \<le> g" using g(1) by simp
    ultimately show ?thesis using g(2) rest f by auto
  qed
qed

lemma find_elem_fields [simp]:
  "data (find_elem ops env i st) = data st" "root (find_elem ops env i st) = root st"
  "counter (find_elem ops env i st) = counter st" "draws (find_elem ops env i st) = draws st"
  "searches (find_elem ops env i st) = searches st" "flags (find_elem ops env i st) = flags st"
  "keeps (find_elem ops env i st) = keeps st"
  "log (find_elem ops env i st) = log st @ Ev_tfind i # verify_find ops env (data st) (root st) i"
  by (simp_all add: find_elem_def)

lemma lookup_fields:
  "data (lookup ops env n i st) = data st \<and> root (lookup ops env n i st) = root st \<and>
   counter (lookup ops env n i st) = counter st \<and> draws (lookup ops env n i st) = draws st \<and>
   searches (lookup ops env n i st) = searches st \<and> keeps (lookup ops env n i st) = keeps st"
proof (induction ops env n i st rule: lookup.induct)
  case (1 ops env n i st)
  show ?case
  proof (cases "flag env (flags st) \<and> i < n")
    case True
    with "1.IH" show ?thesis by (simp add: lookup_step)
  next
    case False
    have "lookup ops env n i st = emit [Ev_flag (flag env (flags st))] (st\<lparr>flags := Suc (flags st)\<rparr>)"
      using False by (rule lookup_stop)
    then show ?thesis by simp
  qed
qed

lemma lookup_log:
  "i \<le> n \<Longrightarrow>
   \<exists>k. i + k \<le> n \<and>
       (\<forall>j<k. flag env (flags st + j)) \<and>
       (i + k < n \<longrightarrow> \<not> flag env (flags st + k)) \<and>
       flags (lookup ops env n i st) = Suc (flags st + k) \<and>
       log (lookup ops env n i st) =
         log st @
         concat (map (\<lambda>j. Ev_flag True # Ev_tfind j # verify_find ops env (data st) (root st) j)
                   [i..<i + k]) @
         [Ev_flag (flag env (flags st + k))]"
proof (induction ops env n i st rule: lookup.induct)
  case (1 ops env n i st)
  show ?case
  proof (cases "flag env (flags st) \<and> i < n")
    case False
    have "lookup ops env n i st = emit [Ev_flag (flag env (flags st))] (st\<lparr>flags := Suc (flags st)\<rparr>)"
      using False by (rule lookup_stop)
    then have "flags (lookup ops env n i st) = Suc (flags st + 0)"
      "log (lookup ops env n i st) = log st @
         concat (map (\<lambda>j. Ev_flag True # Ev_tfind j # verify_find ops env (data st) (root st) j)
                   [i..<i + 0]) @
         [Ev_flag (flag env (flags st + 0))]"
      by simp_all
    moreover have "i + 0 < n \<longrightarrow> \<not> flag env (flags st + 0)" using False by auto
    moreover have "\<forall>j<0::nat. flag env (flags st + j)" by simp
    moreover have "i + 0 \<le> n" using "1.prems" by simp
    ultimately show ?thesis by blast
  next
    case True
    let ?st1 = "find_elem ops env i (emit [Ev_flag True] (st\<lparr>flags := Suc (flags st)\<rparr>))"
    have eq: "lookup ops env n i st = lookup ops env n (Suc i) ?st1"
      using True by (simp add: lookup_step)
    from True have "Suc i \<le> n" by simp
    from "1.IH" [OF True this] obtain k where k: "Suc i + k \<le> n"
      "\<forall>j<k. flag env (flags ?st1 + j)"
      "Suc i + k < n \<longrightarrow> \<not> flag env (flags ?st1 + k)"
      "flags (lookup ops env n (Suc i) ?st1) = Suc (flags ?st1 + k)"
      "log (lookup ops env n (Suc i) ?st1) = log ?st1 @
         concat (map (\<lambda>j. Ev_flag True # Ev_tfind j # verify_find ops env (data ?st1) (root ?st1) j)
                   [Suc i..<Suc i + k]) @
         [Ev_flag (flag env (flags ?st1 + k))]"
      by blast
    have fl: "flags ?st1 = Suc (flags st)" by simp
    have up: "[i..<i + Suc k] = i # [Suc i..<Suc i + k]" by (simp add: upt_conv_Cons)
    have a: "\<forall>j<Suc k. flag env (flags st + j)"
    proof (intro allI impI)
      fix j assume j: "j < Suc k"
      show "flag env (flags st + j)"
      proof (cases j)
        case 0
        with True show ?thesis by simp
      next
        case (Suc j')
        with j have "j' < k" by simp
        with k(2) have "flag env (flags ?st1 + j')" by blast
        then show ?thesis by (simp add: Suc)
      qed
    qed
    have b: "i + Suc k < n \<longrightarrow> \<not> flag env (flags st + Suc k)"
      using k(3) by simp
    have c: "flags (lookup ops env n i st) = Suc (flags st + Suc k)"
      using k(4) by (simp add: eq)
    have d: "log (lookup ops env n i st) = log st @
         concat (map (\<lambda>j. Ev_flag True # Ev_tfind j # verify_find ops env (data st) (root st) j)
                   [i..<i + Suc k]) @
         [Ev_flag (flag env (flags st + Suc k))]"
      unfolding eq k(5) up by simp
    have "i + Suc k \<le> n" using k(1) by simp
    with a b c d show ?thesis by blast
  qed
qed

lemma delete_elem_fields [simp]:
  "data (delete_elem ops env i st) = data st"
  "root (delete_elem ops env i st) = snd (tdelete ops (data st) i (root st))"
  "counter (delete_elem ops env i st) = counter st" "draws (delete_elem ops env i st) = draws st"
  "searches (delete_elem ops env i st) = searches st" "flags (delete_elem ops env i st) = flags st"
  "keeps (delete_elem ops env i st) = keeps st"
  "log (delete_elem ops env i st) =
     log st @ Ev_tdelete i # verify_delete env (fst (tdelete ops (data st) i (root st))) i"
  by (simp_all add: delete_elem_def split: prod.splits)

lemma drain_fields:
  "data (drain ops env n i st) = data st \<and> flags (drain ops env n i st) = flags st \<and>
   counter (drain ops env n i st) = counter st \<and> draws (drain ops env n i st) = draws st \<and>
   searches (drain ops env n i st) = searches st \<and> keeps (drain ops env n i st) = keeps st"
proof (induction ops env n i st rule: drain.induct)
  case (1 ops env n i st)
  show ?case
  proof (cases "i < n")
    case True
    with "1.IH" show ?thesis by (simp add: drain_step)
  next
    case False
    then show ?thesis by (simp add: drain_stop)
  qed
qed

text \<open>The drain loop up to element \<open>m\<close>, then from \<open>m\<close> on.\<close>

lemma drain_split:
  "i \<le> m \<Longrightarrow> m \<le> n \<Longrightarrow> drain ops env n i st = drain ops env n m (drain ops env m i st)"
proof (induction ops env m i st rule: drain.induct)
  case (1 ops env m i st)
  show ?case
  proof (cases "i < m")
    case True
    with "1.prems" have "i < n" by simp
    with "1.IH" [OF True] "1.prems" True show ?thesis by (simp add: drain_step)
  next
    case False
    with "1.prems" show ?thesis by (simp add: drain_stop)
  qed
qed

lemma drain_Suc:
  "i \<le> m \<Longrightarrow> drain ops env (Suc m) i st = delete_elem ops env m (drain ops env m i st)"
proof -
  assume "i \<le> m"
  then have "drain ops env (Suc m) i st = drain ops env (Suc m) m (drain ops env m i st)"
    by (rule drain_split) simp
  also have "\<dots> = delete_elem ops env m (drain ops env m i st)"
    by (simp add: drain_step drain_stop)
  finally show ?thesis .
qed

lemma drain_log:
  "i \<le> n \<Longrightarrow>
   log (drain ops env n i st) =
     log st @
     concat (map (\<lambda>j. Ev_tdelete j #
                   verify_delete env
                     (fst (tdelete ops (data st) j (root (drain ops env j i st)))) j)
               [i..<n])"
proof (induction n)
  case 0
  then show ?case by (simp add: drain_stop)
next
  case (Suc n)
  show ?case
  proof (cases "i = Suc n")
    case True
    then show ?thesis by (simp add: drain_stop)
  next
    case False
    with Suc.prems have le: "i \<le> n" by simp
    have d: "data (drain ops env n i st) = data st" by (simp add: drain_fields)
    show ?thesis using Suc.IH [OF le] le by (simp add: drain_Suc d)
  qed
qed

section \<open>The tree model\<close>

lemma cmp_eq0 [simp]: "stress_sort_cmp_int32 a b = 0 \<longleftrightarrow> a = b"
  by (auto simp: stress_sort_cmp_int32_def word_eq_iff_signed [where ?'a = int, of a b])

lemma cmp_less0 [simp]: "stress_sort_cmp_int32 a b < 0 \<longleftrightarrow> sint a < sint b"
  by (simp add: stress_sort_cmp_int32_def)

lemma cmp_greater0 [simp]: "0 < stress_sort_cmp_int32 a b \<longleftrightarrow> sint b < sint a"
  by (simp add: stress_sort_cmp_int32_def)

lemma sint_neq: "a \<noteq> b \<Longrightarrow> sint (a::int32) < sint b \<or> sint b < sint a"
  using word_eq_iff_signed [where ?'a = int, of a b] by auto

text \<open>Insertion.\<close>

lemma tree_insert_total: "tree_insert True d k t \<noteq> None"
  by (induction t) (auto simp: Let_def split: option.splits)

lemma tree_insert_keys:
  "tree_insert ok d k t = Some (p, t') \<Longrightarrow>
     d ! p = d ! k \<and> p \<in> keys t' \<and> keys t \<subseteq> keys t' \<and> keys t' \<subseteq> insert k (keys t)"
proof (induction t arbitrary: t')
  case Leaf
  then show ?case by (auto split: if_splits)
next
  case (Node l x r)
  show ?case
  proof (cases "d ! k = d ! x")
    case True
    with Node.prems show ?thesis by auto
  next
    case False
    show ?thesis
    proof (cases "sint (d ! k) < sint (d ! x)")
      case True
      with False Node.prems obtain l' where l': "tree_insert ok d k l = Some (p, l')"
        and t': "t' = Node l' x r"
        by (auto simp: Let_def split: option.splits)
      from Node.IH(1) [OF l'] t' show ?thesis by auto
    next
      case gt: False
      with False Node.prems obtain r' where r': "tree_insert ok d k r = Some (p, r')"
        and t': "t' = Node l x r'"
        by (auto simp: Let_def split: option.splits)
      from Node.IH(2) [OF r'] t' show ?thesis by auto
    qed
  qed
qed

lemma tree_insert_bst:
  "tree_insert ok d k t = Some (p, t') \<Longrightarrow> bst d t \<Longrightarrow> bst d t'"
proof (induction t arbitrary: t')
  case Leaf
  then show ?case by (auto split: if_splits)
next
  case (Node l x r)
  show ?case
  proof (cases "d ! k = d ! x")
    case True
    with Node.prems show ?thesis by auto
  next
    case False
    show ?thesis
    proof (cases "sint (d ! k) < sint (d ! x)")
      case True
      with False Node.prems obtain l' where l': "tree_insert ok d k l = Some (p, l')"
        and t': "t' = Node l' x r"
        by (auto simp: Let_def split: option.splits)
      from tree_insert_keys [OF l'] have "keys l' \<subseteq> insert k (keys l)" by simp
      with Node.IH(1) [OF l'] Node.prems(2) True t' show ?thesis by auto
    next
      case gt: False
      with False have lt: "sint (d ! x) < sint (d ! k)" using sint_neq by blast
      from gt False Node.prems obtain r' where r': "tree_insert ok d k r = Some (p, r')"
        and t': "t' = Node l x r'"
        by (auto simp: Let_def split: option.splits)
      from tree_insert_keys [OF r'] have "keys r' \<subseteq> insert k (keys r)" by simp
      with Node.IH(2) [OF r'] Node.prems(2) lt t' show ?thesis by auto
    qed
  qed
qed

text \<open>Lookup in an ordered tree.\<close>

lemma tree_find_member:
  "bst d t \<Longrightarrow> x \<in> keys t \<Longrightarrow> \<exists>y \<in> keys t. tree_find d x t = Some y \<and> d ! y = d ! x"
  by (induction t) (auto simp: Let_def)

lemma tree_find_Some:
  "tree_find d k t = Some y \<Longrightarrow> y \<in> keys t \<and> d ! y = d ! k"
  by (induction t) (auto simp: Let_def split: if_splits)

lemma tree_find_None:
  "bst d t \<Longrightarrow> tree_find d k t = None \<Longrightarrow> \<forall>y \<in> keys t. d ! y \<noteq> d ! k"
  by (induction t) (auto simp: Let_def split: if_splits)


lemma tree_find_value:
  "bst d t \<Longrightarrow> x \<in> keys t \<Longrightarrow> d ! x = d ! k \<Longrightarrow>
     \<exists>y \<in> keys t. tree_find d k t = Some y \<and> d ! y = d ! k"
  by (induction t) (auto simp: Let_def)

text \<open>Deletion.\<close>

lemma leftmost_member: "leftmost l x \<in> insert x (keys l)"
  by (induction l arbitrary: x) auto

lemma leftmost_least:
  "bst d (Node l x r) \<Longrightarrow> y \<in> keys (Node l x r) \<Longrightarrow> sint (d ! leftmost l x) \<le> sint (d ! y)"
proof (induction l arbitrary: x r y)
  case Leaf
  then show ?case by auto
next
  case (Node ll z lr)
  have m: "leftmost ll z \<in> insert z (keys ll)" by (rule leftmost_member)
  from Node.prems(1) have b: "bst d (Node ll z lr)" by simp
  have lz: "sint (d ! leftmost ll z) \<le> sint (d ! z)"
    using Node.IH(1) [OF b, of z] by simp
  from Node.prems(1) have zx: "sint (d ! z) < sint (d ! x)" by simp
  show ?case
  proof (cases "y \<in> keys (Node ll z lr)")
    case True
    from Node.IH(1) [OF b True] show ?thesis by simp
  next
    case False
    with Node.prems have "y = x \<or> y \<in> keys r" by auto
    with Node.prems(1) have "sint (d ! x) \<le> sint (d ! y)" by auto
    with lz zx show ?thesis by simp
  qed
qed

lemma vals_Node [simp]: "vals d (Node l x r) = vals d l \<union> {d ! x} \<union> vals d r"
  by (auto simp: vals_def)

lemma vals_Leaf [simp]: "vals d Leaf = {}"
  by (simp add: vals_def)

lemma vals_empty: "vals d t = {} \<Longrightarrow> t = Leaf"
  by (cases t) auto

lemma bst_vals_less: "bst d (Node l x r) \<Longrightarrow> v \<in> vals d l \<Longrightarrow> sint v < sint (d ! x)"
  by (auto simp: vals_def)

lemma bst_vals_greater: "bst d (Node l x r) \<Longrightarrow> v \<in> vals d r \<Longrightarrow> sint (d ! x) < sint v"
  by (auto simp: vals_def)

lemma tree_delete_correct:
  "bst d t \<Longrightarrow>
     bst d (snd (tree_delete d k t)) \<and>
     keys (snd (tree_delete d k t)) \<subseteq> keys t \<and>
     vals d (snd (tree_delete d k t)) = vals d t - {d ! k} \<and>
     (fst (tree_delete d k t) = None \<longleftrightarrow> d ! k \<notin> vals d t)"
proof (induction t arbitrary: k)
  case Leaf
  then show ?case by simp
next
  case (Node l x r)
  from Node.prems have bl: "bst d l" and br: "bst d r" by simp_all
  have xl: "d ! x \<notin> vals d l" using bst_vals_less [OF Node.prems] by fastforce
  have xr: "d ! x \<notin> vals d r" using bst_vals_greater [OF Node.prems] by fastforce
  show ?case
  proof (cases "sint (d ! k) < sint (d ! x)")
    case True
    note ih = Node.IH(1) [OF bl, of k]
    have eq: "tree_delete d k (Node l x r) =
        (fst (tree_delete d k l), Node (snd (tree_delete d k l)) x r)"
      using True by (simp add: Let_def split: prod.splits)
    have kr: "d ! k \<notin> vals d r" using bst_vals_greater [OF Node.prems] True by fastforce
    have kx: "d ! k \<noteq> d ! x" using True by auto
    have "bst d (Node (snd (tree_delete d k l)) x r)"
      using ih Node.prems by auto
    moreover have "vals d (Node (snd (tree_delete d k l)) x r) = vals d (Node l x r) - {d ! k}"
      using ih kr kx by auto
    moreover have "fst (tree_delete d k l) = None \<longleftrightarrow> d ! k \<notin> vals d (Node l x r)"
      using ih kr kx by auto
    moreover have "keys (Node (snd (tree_delete d k l)) x r) \<subseteq> keys (Node l x r)"
      using ih by auto
    ultimately show ?thesis unfolding eq fst_conv snd_conv by blast
  next
    case nlt: False
    show ?thesis
    proof (cases "sint (d ! x) < sint (d ! k)")
      case True
      note ih = Node.IH(2) [OF br, of k]
      have eq: "tree_delete d k (Node l x r) =
          (fst (tree_delete d k r), Node l x (snd (tree_delete d k r)))"
        using True nlt by (simp add: Let_def split: prod.splits)
      have kl: "d ! k \<notin> vals d l" using bst_vals_less [OF Node.prems] True by fastforce
      have kx: "d ! k \<noteq> d ! x" using True by auto
      have "bst d (Node l x (snd (tree_delete d k r)))"
        using ih Node.prems by auto
      moreover have "vals d (Node l x (snd (tree_delete d k r))) = vals d (Node l x r) - {d ! k}"
        using ih kl kx by auto
      moreover have "fst (tree_delete d k r) = None \<longleftrightarrow> d ! k \<notin> vals d (Node l x r)"
        using ih kl kx by auto
      moreover have "keys (Node l x (snd (tree_delete d k r))) \<subseteq> keys (Node l x r)"
        using ih by auto
      ultimately show ?thesis unfolding eq fst_conv snd_conv by blast
    next
      case ngt: False
      with nlt have kx: "d ! k = d ! x" using sint_neq by blast
      show ?thesis
      proof (cases r)
        case Leaf
        then have eq: "tree_delete d k (Node l x r) = (Some x, l)"
          using kx by (simp add: Let_def)
        show ?thesis unfolding eq fst_conv snd_conv using bl xl kx Leaf by auto
      next
        case rn: (Node rl y rr)
        show ?thesis
        proof (cases l)
          case Leaf
          then have eq: "tree_delete d k (Node l x r) = (Some x, r)"
            using kx rn by (simp add: Let_def)
          show ?thesis unfolding eq fst_conv snd_conv using br xr kx Leaf by auto
        next
          case ln: (Node ll z lr)
          let ?m = "leftmost rl y"
          let ?r' = "snd (tree_delete d ?m r)"
          have eq: "tree_delete d k (Node l x r) = (Some x, Node l ?m ?r')"
            using kx rn ln by (simp add: Let_def)
          note ih = Node.IH(2) [OF br, of ?m]
          have mr: "?m \<in> keys r" using leftmost_member [of rl y] rn by auto
          then have mv: "d ! ?m \<in> vals d r" by (auto simp: vals_def)
          have xm: "sint (d ! x) < sint (d ! ?m)" using Node.prems mr by auto
          have lm: "\<forall>u \<in> keys l. sint (d ! u) < sint (d ! ?m)"
          proof
            fix u assume "u \<in> keys l"
            with Node.prems have "sint (d ! u) < sint (d ! x)" by auto
            with xm show "sint (d ! u) < sint (d ! ?m)" by simp
          qed
          have mr': "\<forall>u \<in> keys ?r'. sint (d ! ?m) < sint (d ! u)"
          proof
            fix u assume u: "u \<in> keys ?r'"
            with ih have ur: "u \<in> keys r" by auto
            from u have "d ! u \<in> vals d ?r'" by (auto simp: vals_def)
            with ih have ne: "d ! u \<noteq> d ! ?m" by auto
            have "sint (d ! ?m) \<le> sint (d ! u)"
              using leftmost_least [of d rl y rr u] br ur rn by simp
            with ne show "sint (d ! ?m) < sint (d ! u)"
              using sint_neq [of "d ! u" "d ! ?m"] by auto
          qed
          have "bst d (Node l ?m ?r')" using bl ih lm mr' by simp
          moreover have "keys (Node l ?m ?r') \<subseteq> keys (Node l x r)" using ih mr by auto
          moreover have "vals d (Node l ?m ?r') = vals d (Node l x r) - {d ! k}"
            using ih mv xl xr kx by auto
          moreover have "d ! k \<in> vals d (Node l x r)" using kx by simp
          ultimately show ?thesis unfolding eq fst_conv snd_conv by blast
        qed
      qed
    qed
  qed
qed

lemma bst_frame: "\<forall>x \<in> keys t. d' ! x = d ! x \<Longrightarrow> bst d' t = bst d t"
  by (induction t) auto

section \<open>One cycle\<close>

lemma inc_counter_fields [simp]:
  "data (inc_counter st) = data st" "root (inc_counter st) = root st"
  "counter (inc_counter st) = Suc (counter st)" "draws (inc_counter st) = draws st"
  "searches (inc_counter st) = searches st" "flags (inc_counter st) = flags st"
  "keeps (inc_counter st) = keeps st" "log (inc_counter st) = log st @ [Ev_inc]"
  by (simp_all add: inc_counter_def)

lemma verify_find_reports: "e \<in> set (verify_find ops env d t i) \<Longrightarrow> is_report e"
  by (auto simp: verify_find_def split: if_splits option.splits)

lemma verify_delete_reports: "e \<in> set (verify_delete env res i) \<Longrightarrow> is_report e"
  by (auto simp: verify_delete_def split: if_splits)

lemma calls_append [simp]: "calls (xs @ ys) = calls xs @ calls ys"
  by (simp add: calls_def)

lemma updates_append [simp]: "updates (xs @ ys) = updates xs @ updates ys"
  by (simp add: updates_def)

lemma calls_reports: "\<forall>e \<in> set es. is_report e \<Longrightarrow> calls es = []"
  by (simp add: calls_def)

lemma updates_reports: "\<forall>e \<in> set es. is_report e \<Longrightarrow> updates es = []"
  by (auto simp add: updates_def)

lemma calls_tsearch [simp]: "calls (map Ev_tsearch xs) = map Ev_tsearch xs"
  by (induction xs) (simp_all add: calls_def)

lemma calls_tdelete [simp]: "calls (map Ev_tdelete xs) = map Ev_tdelete xs"
  by (induction xs) (simp_all add: calls_def)

lemma updates_tsearch [simp]: "updates (map Ev_tsearch xs) = map Ev_tsearch xs"
  by (induction xs) (simp_all add: updates_def)

lemma updates_tdelete [simp]: "updates (map Ev_tdelete xs) = map Ev_tdelete xs"
  by (induction xs) (simp_all add: updates_def)

lemma calls_scan:
  "calls (concat (map (\<lambda>j. Ev_flag True # Ev_tfind j # verify_find ops env d t j) xs)) =
     concat (map (\<lambda>j. [Ev_flag True, Ev_tfind j]) xs)"
proof (induction xs)
  case Nil
  then show ?case by (simp add: calls_def)
next
  case (Cons x xs)
  have "calls (verify_find ops env d t x) = []"
    by (rule calls_reports) (simp add: verify_find_reports)
  with Cons show ?case
    using calls_append [of "[Ev_flag True, Ev_tfind x]" "verify_find ops env d t x"]
    by (simp add: calls_def)
qed

lemma updates_scan:
  "updates (concat (map (\<lambda>j. Ev_flag True # Ev_tfind j # verify_find ops env d t j) xs)) = []"
proof (induction xs)
  case Nil
  then show ?case by (simp add: updates_def)
next
  case (Cons x xs)
  have "updates (verify_find ops env d t x) = []"
    by (rule updates_reports) (simp add: verify_find_reports)
  with Cons show ?case
    using updates_append [of "[Ev_flag True, Ev_tfind x]" "verify_find ops env d t x"]
    by (simp add: updates_def)
qed

lemma calls_drain:
  "calls (concat (map (\<lambda>j. Ev_tdelete j # verify_delete env (f j) j) xs)) = map Ev_tdelete xs"
proof (induction xs)
  case Nil
  then show ?case by (simp add: calls_def)
next
  case (Cons x xs)
  have "calls (verify_delete env (f x) x) = []"
    by (rule calls_reports) (simp add: verify_delete_reports)
  with Cons show ?case
    using calls_append [of "[Ev_tdelete x]" "verify_delete env (f x) x"]
    by (simp add: calls_def)
qed

lemma updates_drain:
  "updates (concat (map (\<lambda>j. Ev_tdelete j # verify_delete env (f j) j) xs)) = map Ev_tdelete xs"
proof (induction xs)
  case Nil
  then show ?case by (simp add: updates_def)
next
  case (Cons x xs)
  have "updates (verify_delete env (f x) x) = []"
    by (rule updates_reports) (simp add: verify_delete_reports)
  with Cons show ?case
    using updates_append [of "[Ev_tdelete x]" "verify_delete env (f x) x"]
    by (simp add: updates_def)
qed

text \<open>One cycle.\<close>

lemma cycle_Inr_iff:
  "cycle ops env n st = Inr st' \<longleftrightarrow>
     (\<exists>st1. populate ops env n 0 (st\<lparr>root := null ops\<rparr>) = Inr st1 \<and>
            st' = inc_counter (drain ops env n 0 (lookup ops env n 0 st1)))"
  by (auto simp: cycle_def split: sum.splits)

lemma cycle_Inl_iff:
  "cycle ops env n st = Inl st' \<longleftrightarrow> populate ops env n 0 (st\<lparr>root := null ops\<rparr>) = Inl st'"
  by (auto simp: cycle_def split: sum.splits)

lemma cycle_Inr_fields:
  assumes "cycle ops env n st = Inr st'"
  shows "counter st' = Suc (counter st)" "keeps st' = keeps st"
    "searches st' = searches st + n" "draws st' = draws st + n"
    "length (data st') = length (data st)"
proof -
  from assms obtain st1 where p: "populate ops env n 0 (st\<lparr>root := null ops\<rparr>) = Inr st1"
    and e: "st' = inc_counter (drain ops env n 0 (lookup ops env n 0 st1))"
    by (auto simp: cycle_Inr_iff)
  note f = populate_Inr [OF p]
  show "counter st' = Suc (counter st)" "keeps st' = keeps st" "searches st' = searches st + n"
    "draws st' = draws st + n" "length (data st') = length (data st)"
    using f by (simp_all add: e drain_fields lookup_fields)
qed


lemma calls_single [simp]:
  "calls [Ev_flag b] = [Ev_flag b]" "calls [Ev_inc] = [Ev_inc]" "calls [Ev_keep b] = [Ev_keep b]"
  "calls [Ev_err] = [Ev_err]"
  by (simp_all add: calls_def)

lemma updates_single [simp]:
  "updates [Ev_flag b] = []" "updates [Ev_inc] = [Ev_inc]" "updates [Ev_keep b] = [Ev_keep b]"
  "updates [Ev_err] = [Ev_err]"
  by (simp_all add: updates_def)

lemma cycle_Inr_log:
  assumes "cycle ops env n st = Inr st'"
  shows "\<exists>k L. k \<le> n \<and> (\<forall>j<k. flag env (flags st + j)) \<and>
           (k < n \<longrightarrow> \<not> flag env (flags st + k)) \<and>
           flags st' = Suc (flags st + k) \<and>
           log st' = log st @ L \<and>
           calls L = map Ev_tsearch [0..<n] @
                     concat (map (\<lambda>j. [Ev_flag True, Ev_tfind j]) [0..<k]) @
                     [Ev_flag (flag env (flags st + k))] @
                     map Ev_tdelete [0..<n] @ [Ev_inc] \<and>
           updates L = map Ev_tsearch [0..<n] @ map Ev_tdelete [0..<n] @ [Ev_inc]"
proof -
  from assms obtain st1 where p: "populate ops env n 0 (st\<lparr>root := null ops\<rparr>) = Inr st1"
    and e: "st' = inc_counter (drain ops env n 0 (lookup ops env n 0 st1))"
    by (auto simp: cycle_Inr_iff)
  let ?st2 = "lookup ops env n 0 st1"
  let ?L1 = "map Ev_tsearch [0..<n]"
  from populate_Inr [OF p] have l1: "log st1 = log st @ ?L1" and f1: "flags st1 = flags st"
    by simp_all
  from lookup_log [of 0 n env st1 ops] obtain k where k: "k \<le> n"
    "\<forall>j<k. flag env (flags st1 + j)" "k < n \<longrightarrow> \<not> flag env (flags st1 + k)"
    "flags ?st2 = Suc (flags st1 + k)"
    "log ?st2 = log st1 @
       concat (map (\<lambda>j. Ev_flag True # Ev_tfind j # verify_find ops env (data st1) (root st1) j)
                 [0..<k]) @
       [Ev_flag (flag env (flags st1 + k))]"
    by auto
  let ?L2 = "concat (map (\<lambda>j. Ev_flag True # Ev_tfind j # verify_find ops env (data st1) (root st1) j)
                 [0..<k]) @ [Ev_flag (flag env (flags st + k))]"
  let ?L3 = "concat (map (\<lambda>j. Ev_tdelete j #
                   verify_delete env
                     (fst (tdelete ops (data ?st2) j (root (drain ops env j 0 ?st2)))) j)
               [0..<n])"
  let ?L = "?L1 @ ?L2 @ ?L3 @ [Ev_inc]"
  have l3: "log (drain ops env n 0 ?st2) = log ?st2 @ ?L3"
    by (rule drain_log) simp
  have lg: "log st' = log st @ ?L"
    by (simp add: e l3 k(5) l1 f1)
  have fl: "flags st' = Suc (flags st + k)"
    using k(4) f1 by (simp add: e drain_fields)
  let ?S = "concat (map (\<lambda>j. Ev_flag True # Ev_tfind j # verify_find ops env (data st1) (root st1) j)
                 [0..<k])"
  have c2: "calls ?S = concat (map (\<lambda>j. [Ev_flag True, Ev_tfind j]) [0..<k])"
    by (rule calls_scan)
  have c3: "calls ?L3 = map Ev_tdelete [0..<n]" by (rule calls_drain)
  have u2: "updates ?S = []" by (rule updates_scan)
  have u3: "updates ?L3 = map Ev_tdelete [0..<n]" by (rule updates_drain)
  have c: "calls ?L = map Ev_tsearch [0..<n] @
                     concat (map (\<lambda>j. [Ev_flag True, Ev_tfind j]) [0..<k]) @
                     [Ev_flag (flag env (flags st + k))] @
                     map Ev_tdelete [0..<n] @ [Ev_inc]"
    unfolding calls_append c2 c3 calls_single calls_tsearch by simp
  have u: "updates ?L = map Ev_tsearch [0..<n] @ map Ev_tdelete [0..<n] @ [Ev_inc]"
    unfolding updates_append u2 u3 updates_single updates_tsearch by simp
  from k(1,2,3) f1 fl lg c u show ?thesis by (intro exI [of _ k] exI [of _ ?L]) simp
qed

lemma populate_succeeds:
  "(\<forall>d k t. tsearch ops True d k t \<noteq> None) \<Longrightarrow>
   (\<forall>k. searches st \<le> k \<and> k < searches st + (n - i) \<longrightarrow> malloc_ok env k) \<Longrightarrow>
     \<exists>st'. populate ops env n i st = Inr st'"
proof (induction ops env n i st rule: populate.induct)
  case (1 ops env n i st)
  show ?case
  proof (cases "i < n")
    case False
    then show ?thesis by (simp add: populate_stop)
  next
    case True
    with "1.prems"(2) have ok: "malloc_ok env (searches st)" by simp
    let ?d = "(data st)[i := tsearch_key (mwc16 env (draws st)) i]"
    from "1.prems"(1) obtain p t where pt: "tsearch ops True ?d i (root st) = Some (p, t)"
      by (metis not_Some_eq surj_pair)
    then obtain st1 where e: "populate_elem ops env i st = Inr st1"
      using ok by (simp add: populate_elem_def Let_def)
    from populate_elem_Inr [OF e] have s1: "searches st1 = Suc (searches st)" by simp
    have "\<forall>k. searches st1 \<le> k \<and> k < searches st1 + (n - Suc i) \<longrightarrow> malloc_ok env k"
      using "1.prems"(2) True s1 by auto
    from "1.IH" [OF True e "1.prems"(1) this] show ?thesis
      using True e by (simp add: populate_step)
  qed
qed

text \<open>The phases over the tree model.\<close>

lemma populate_bst_aux:
  "populate ops env n i st = Inr st' \<Longrightarrow> ops = bst_ops \<Longrightarrow> i \<le> n \<Longrightarrow>
   bst (data st) (root st) \<Longrightarrow> keys (root st) \<subseteq> {..<i} \<Longrightarrow>
     bst (data st') (root st') \<and> keys (root st') \<subseteq> {..<n}"
proof (induction ops env n i st rule: populate.induct)
  case (1 ops env n i st)
  note [simp] = \<open>ops = bst_ops\<close>
  show ?case
  proof (cases "i < n")
    case False
    with "1.prems" show ?thesis by (auto simp add: populate_stop)
  next
    case True
    with "1.prems" obtain st1 where e: "populate_elem bst_ops env i st = Inr st1"
      and r: "populate bst_ops env n (Suc i) st1 = Inr st'"
      by (auto simp: populate_step split: sum.splits)
    from populate_elem_Inr [OF e] obtain p where
      d1: "data st1 = (data st)[i := tsearch_key (mwc16 env (draws st)) i]" and
      ins: "tree_insert (malloc_ok env (searches st)) (data st1) i (root st) = Some (p, root st1)"
      by (auto simp: bst_ops_def)
    have "\<forall>x \<in> keys (root st). data st1 ! x = data st ! x"
      using "1.prems"(5) d1 by auto
    then have "bst (data st1) (root st)"
      using "1.prems"(4) bst_frame [of "root st" "data st1" "data st"] by simp
    with ins have b1: "bst (data st1) (root st1)" by (rule tree_insert_bst)
    from tree_insert_keys [OF ins] "1.prems"(5) have k1: "keys (root st1) \<subseteq> {..<Suc i}"
      by auto
    from True have "Suc i \<le> n" by simp
    from "1.IH" [OF True _ _ "1.prems"(2) this b1 k1] e r show ?thesis by simp
  qed
qed

lemmas populate_bst = populate_bst_aux [OF _ refl]

lemma drain_bst_aux:
  "ops = bst_ops \<Longrightarrow> bst (data st) (root st) \<Longrightarrow>
     bst (data st) (root (drain ops env n i st)) \<and>
     vals (data st) (root (drain ops env n i st)) =
       vals (data st) (root st) - {data st ! j | j. i \<le> j \<and> j < n}"
proof (induction ops env n i st rule: drain.induct)
  case (1 ops env n i st)
  note [simp] = \<open>ops = bst_ops\<close>
  show ?case
  proof (cases "i < n")
    case False
    with "1.prems" show ?thesis by (auto simp add: drain_stop)
  next
    case True
    let ?st1 = "delete_elem bst_ops env i st"
    note dc = tree_delete_correct [OF "1.prems"(2), of i]
    have r1: "root ?st1 = snd (tree_delete (data st) i (root st))" by (simp add: bst_ops_def)
    have d1: "data ?st1 = data st" by simp
    have b1: "bst (data ?st1) (root ?st1)" using dc by (simp add: bst_ops_def)
    have ih: "bst (data st) (root (drain ops env n (Suc i) ?st1)) \<and>
     vals (data st) (root (drain ops env n (Suc i) ?st1)) =
       vals (data st) (root ?st1) - {data st ! j | j. Suc i \<le> j \<and> j < n}"
      using "1.IH" [OF True "1.prems"(1)] b1 by simp
    have "{data st ! j | j. i \<le> j \<and> j < n} = insert (data st ! i) {data st ! j | j. Suc i \<le> j \<and> j < n}"
      using True by (auto simp: Suc_le_eq le_less)
    then have "vals (data st) (root st) - {data st ! j | j. i \<le> j \<and> j < n} =
       vals (data st) (root ?st1) - {data st ! j | j. Suc i \<le> j \<and> j < n}"
      using dc by (auto simp add: bst_ops_def)
    with ih show ?thesis using True by (simp add: drain_step)
  qed
qed

lemmas drain_bst = drain_bst_aux [OF refl]

lemma cycle_bst_root:
  assumes "cycle bst_ops env n st = Inr st'"
  shows "root st' = Leaf"
proof -
  from assms obtain st1 where p: "populate bst_ops env n 0 (st\<lparr>root := null bst_ops\<rparr>) = Inr st1"
    and e: "st' = inc_counter (drain bst_ops env n 0 (lookup bst_ops env n 0 st1))"
    by (auto simp: cycle_Inr_iff)
  from populate_bst [OF p] have b1: "bst (data st1) (root st1)" and k1: "keys (root st1) \<subseteq> {..<n}"
    by (simp_all add: bst_ops_def)
  let ?st2 = "lookup bst_ops env n 0 st1"
  have s2: "data ?st2 = data st1" "root ?st2 = root st1" by (simp_all add: lookup_fields)
  from b1 have "bst (data ?st2) (root ?st2)" by (simp add: s2)
  from drain_bst [OF this, of env n 0]
  have v: "vals (data st1) (root (drain bst_ops env n 0 ?st2)) =
       vals (data st1) (root st1) - {data st1 ! j | j. j < n}"
    by (simp add: s2)
  have "vals (data st1) (root st1) \<subseteq> {data st1 ! j | j. j < n}"
    using k1 by (auto simp: vals_def)
  with v have "vals (data st1) (root (drain bst_ops env n 0 ?st2)) = {}" by auto
  then show ?thesis by (simp add: e vals_empty)
qed

text \<open>The counter along the run.\<close>

lemma cycle_Inl_fields:
  assumes "cycle ops env n st = Inl st'"
  shows "counter st' = counter st" "keeps st' = keeps st"
  using populate_Inl [of ops env n 0 "st\<lparr>root := null ops\<rparr>" st'] assms
  by (simp_all add: cycle_Inl_iff)

lemma do_while_counter_mono:
  assumes "do_while ops env n st = Some st'"
  shows "counter st \<le> counter st'"
proof (rule do_while.raw_induct
    [where P = "\<lambda>ops env n st st'. counter st \<le> counter st'", OF _ assms])
  fix f :: "'a tree_ops \<Rightarrow> env \<Rightarrow> nat \<Rightarrow> 'a state \<Rightarrow> 'a state option"
    and ops env n st st'
  assume ih: "\<And>ops env n st st'. f ops env n st = Some st' \<Longrightarrow> counter st \<le> counter st'"
    and eq: "(case cycle ops env n st of
                Inl st1 \<Rightarrow> Some st1
              | Inr st1 \<Rightarrow>
                  if keep env (keeps st1)
                  then f ops env n (emit [Ev_keep True] (st1\<lparr>keeps := Suc (keeps st1)\<rparr>))
                  else Some (emit [Ev_keep False] (st1\<lparr>keeps := Suc (keeps st1)\<rparr>))) = Some st'"
  show "counter st \<le> counter st'"
  proof (cases "cycle ops env n st")
    case (Inl s1)
    with eq have "st' = s1" by simp
    with cycle_Inl_fields(1) [OF Inl] show ?thesis by simp
  next
    case (Inr s1)
    note c = cycle_Inr_fields(1) [OF Inr]
    show ?thesis
    proof (cases "keep env (keeps s1)")
      case True
      with Inr eq
      have "f ops env n (emit [Ev_keep True] (s1\<lparr>keeps := Suc (keeps s1)\<rparr>)) = Some st'"
        by simp
      from ih [OF this] c show ?thesis by simp
    next
      case False
      with Inr eq have "st' = emit [Ev_keep False] (s1\<lparr>keeps := Suc (keeps s1)\<rparr>)"
        by simp
      with c show ?thesis by simp
    qed
  qed
qed

section \<open>The run\<close>

lemma cycle_succeeds:
  assumes "\<forall>d k t. tsearch ops True d k t \<noteq> None"
    and "\<forall>k. searches st \<le> k \<and> k < searches st + n \<longrightarrow> malloc_ok env k"
  shows "\<exists>st'. cycle ops env n st = Inr st'"
proof -
  have "\<exists>st1. populate ops env n 0 (st\<lparr>root := null ops\<rparr>) = Inr st1"
    using assms by (intro populate_succeeds) simp_all
  then show ?thesis by (auto simp: cycle_Inr_iff)
qed

lemma cycle_Inr_data:
  assumes "cycle ops env n st = Inr st'" "n \<le> length (data st)" "j < n"
  shows "data st' ! j = tsearch_key (mwc16 env (draws st + j)) j"
proof -
  from assms obtain st1 where p: "populate ops env n 0 (st\<lparr>root := null ops\<rparr>) = Inr st1"
    and e: "st' = inc_counter (drain ops env n 0 (lookup ops env n 0 st1))"
    by (auto simp: cycle_Inr_iff)
  from populate_data [OF p] assms(2,3)
  have "data st1 ! j = tsearch_key (mwc16 env (draws st + j)) j" by simp
  then show ?thesis by (simp add: e drain_fields lookup_fields)
qed

lemma do_while_stop:
  "cycle ops env n st = Inr s1 \<Longrightarrow> \<not> keep env (keeps s1) \<Longrightarrow>
     do_while ops env n st = Some (emit [Ev_keep False] (s1\<lparr>keeps := Suc (keeps s1)\<rparr>))"
  by (subst do_while.simps) simp

lemma do_while_again:
  "cycle ops env n st = Inr s1 \<Longrightarrow> keep env (keeps s1) \<Longrightarrow>
     do_while ops env n st =
       do_while ops env n (emit [Ev_keep True] (s1\<lparr>keeps := Suc (keeps s1)\<rparr>))"
  by (subst do_while.simps) simp

lemma do_while_abort:
  "cycle ops env n st = Inl s1 \<Longrightarrow> do_while ops env n st = Some s1"
  by (subst do_while.simps) simp

lemma do_while_cycles:
  assumes ins: "\<forall>d k t. tsearch ops True d k t \<noteq> None" and mem: "\<forall>k. malloc_ok env k"
  shows "(\<forall>j<K. keep env (keeps st + j)) \<Longrightarrow> \<not> keep env (keeps st + K) \<Longrightarrow>
    \<exists>s s1 L. cycle ops env n s = Inr s1 \<and>
       do_while ops env n st = Some (emit [Ev_keep False] (s1\<lparr>keeps := Suc (keeps s1)\<rparr>)) \<and>
       counter s = counter st + K \<and> draws s = draws st + K * n \<and>
       keeps s = keeps st + K \<and> length (data s) = length (data st) \<and>
       (K = 0 \<longrightarrow> s = st) \<and>
       log s = log st @ L \<and>
       updates L = concat (replicate K
         (map Ev_tsearch [0..<n] @ map Ev_tdelete [0..<n] @ [Ev_inc, Ev_keep True]))"
proof (induction K arbitrary: st)
  case 0
  from cycle_succeeds [of ops st n env] ins mem obtain s1 where c: "cycle ops env n st = Inr s1"
    by auto
  from "0.prems" cycle_Inr_fields(2) [OF c] have "\<not> keep env (keeps s1)" by simp
  from do_while_stop [OF c this] c show ?case by (intro exI [of _ st] exI [of _ s1] exI [of _ "[]"]) (simp add: updates_def)
next
  case (Suc K)
  from cycle_succeeds [of ops st n env] ins mem obtain c1 where c: "cycle ops env n st = Inr c1"
    by auto
  note f = cycle_Inr_fields [OF c]
  from cycle_Inr_log [OF c] obtain Lc where lc: "log c1 = log st @ Lc"
    "updates Lc = map Ev_tsearch [0..<n] @ map Ev_tdelete [0..<n] @ [Ev_inc]"
    by blast
  let ?st2 = "emit [Ev_keep True] (c1\<lparr>keeps := Suc (keeps c1)\<rparr>)"
  from Suc.prems(1) have "keep env (keeps st + 0)" by blast
  with f(2) have k0: "keep env (keeps c1)" by simp
  have dw: "do_while ops env n st = do_while ops env n ?st2"
    using c k0 by (rule do_while_again)
  have k2: "keeps ?st2 = Suc (keeps st)" using f(2) by simp
  have p1: "\<forall>j<K. keep env (keeps ?st2 + j)"
  proof (intro allI impI)
    fix j assume "j < K"
    then have "Suc j < Suc K" by simp
    with Suc.prems(1) have "keep env (keeps st + Suc j)" by blast
    then show "keep env (keeps ?st2 + j)" by (simp add: f(2))
  qed
  have p2: "\<not> keep env (keeps ?st2 + K)" using Suc.prems(2) by (simp add: f(2))
  from Suc.IH [OF p1 p2] obtain s s1 L where ih:
    "cycle ops env n s = Inr s1"
    "do_while ops env n ?st2 = Some (emit [Ev_keep False] (s1\<lparr>keeps := Suc (keeps s1)\<rparr>))"
    "counter s = counter ?st2 + K" "draws s = draws ?st2 + K * n"
    "keeps s = keeps ?st2 + K" "length (data s) = length (data ?st2)"
    "log s = log ?st2 @ L"
    "updates L = concat (replicate K
         (map Ev_tsearch [0..<n] @ map Ev_tdelete [0..<n] @ [Ev_inc, Ev_keep True]))"
    by blast
  let ?L = "Lc @ [Ev_keep True] @ L"
  have a: "counter s = counter st + Suc K" using ih(3) f(1) by simp
  have b: "draws s = draws st + Suc K * n" using ih(4) f(4) by simp
  have k: "keeps s = keeps st + Suc K" using ih(5) k2 by simp
  have d: "length (data s) = length (data st)" using ih(6) f(5) by simp
  have l: "log s = log st @ ?L" using ih(7) lc(1) by simp
  have u: "updates ?L = concat (replicate (Suc K)
         (map Ev_tsearch [0..<n] @ map Ev_tdelete [0..<n] @ [Ev_inc, Ev_keep True]))"
    unfolding updates_append lc(2) ih(8) updates_single by simp
  from ih(1) ih(2) a b k d l u show ?case unfolding dw by blast
qed

section \<open>Evaluation at concrete inputs\<close>

lemma key_5_0: "tsearch_key 5 0 = 20971520"
  by (simp add: tsearch_key_def TSEARCH_SIZE_SHIFT_def)

lemma key_3_1: "tsearch_key 3 (Suc 0) = 12582913"
  by (simp add: tsearch_key_def TSEARCH_SIZE_SHIFT_def)

lemma populate_small:
  "populate bst_ops env_small 2 0 (init_state bst_ops [0, 0]) =
     Inr \<lparr>data = [20971520, 12582913], root = Node (Node Leaf 1 Leaf) 0 Leaf, counter = 0,
          draws = 2, searches = 2, flags = 0, keeps = 0, log = [Ev_tsearch 0, Ev_tsearch 1]\<rparr>"
  by (simp add: populate.simps populate_elem_def init_state_def env_small_def bst_ops_def
      key_5_0 key_3_1 emit_def Let_def stress_sort_cmp_int32_def)

lemma cycle_small:
  "cycle bst_ops env_small 2 (init_state bst_ops [0, 0]) =
     Inr \<lparr>data = [20971520, 12582913], root = Leaf, counter = 1, draws = 2, searches = 2,
          flags = 2, keeps = 0,
          log = [Ev_tsearch 0, Ev_tsearch 1, Ev_flag True, Ev_tfind 0, Ev_flag False,
                 Ev_tdelete 0, Ev_tdelete 1, Ev_inc]\<rparr>"
  by (simp add: cycle_def populate.simps populate_elem_def init_state_def env_small_def
      bst_ops_def key_5_0 key_3_1 emit_def Let_def stress_sort_cmp_int32_def lookup.simps
      drain.simps find_elem_def delete_elem_def verify_find_def verify_delete_def inc_counter_def)

section \<open>The claims\<close>

text \<open>
  Claim C1. For every element count \<open>n\<close> up to \<open>MAX_TSEARCH_SIZE\<close> (which covers the
  supported range from 1024 to \<open>2 ^ 22\<close>) and whatever values \<open>stress_mwc16\<close> returns, a
  populate phase that runs to its end leaves in \<open>data\<close> the keys
  \<open>((r & 0xfff) << 22) ^ i\<close>, and the keys of two different indices differ.
\<close>

theorem keys_pairwise_distinct:
  assumes "n \<le> MAX_TSEARCH_SIZE" "populate ops env n 0 st = Inr st'" "n \<le> length (data st)"
    "i < n" "j < n" "i \<noteq> j"
  shows "data st' ! i = tsearch_key (mwc16 env (draws st + i)) i \<and>
         data st' ! j = tsearch_key (mwc16 env (draws st + j)) j \<and>
         data st' ! i \<noteq> data st' ! j \<and>
         (\<forall>r r'. tsearch_key r i \<noteq> tsearch_key r' j)"
proof -
  from assms(1,4,5) have b: "i < 2 ^ 22" "j < 2 ^ 22"
    by (simp_all add: MAX_TSEARCH_SIZE_def TSEARCH_SIZE_SHIFT_def)
  have ne: "\<And>r r'. tsearch_key r i \<noteq> tsearch_key r' j"
    using tsearch_key_inj [OF b] assms(6) by blast
  from populate_data [OF assms(2) _ assms(3)] assms(4,5)
  have di: "data st' ! i = tsearch_key (mwc16 env (draws st + i)) i"
    and dj: "data st' ! j = tsearch_key (mwc16 env (draws st + j)) j"
    by simp_all
  from di dj ne show ?thesis by simp
qed

theorem keys_pairwise_distinct_witness:
  "(2::nat) \<le> MAX_TSEARCH_SIZE \<and>
   populate bst_ops env_small 2 0 (init_state bst_ops [0, 0]) =
     Inr \<lparr>data = [20971520, 12582913], root = Node (Node Leaf 1 Leaf) 0 Leaf, counter = 0,
          draws = 2, searches = 2, flags = 0, keeps = 0, log = [Ev_tsearch 0, Ev_tsearch 1]\<rparr> \<and>
   [20971520, 12582913 :: int32] ! 0 \<noteq> [20971520, 12582913] ! 1 \<and>
   tsearch_key 7 0 \<noteq> tsearch_key 7 1"
proof -
  have m: "(2::nat) \<le> MAX_TSEARCH_SIZE"
    by (simp add: MAX_TSEARCH_SIZE_def TSEARCH_SIZE_SHIFT_def)
  from keys_pairwise_distinct [OF m populate_small, of 0 1] m populate_small
  show ?thesis by (simp add: init_state_def)
qed

text \<open>
  Claim C9. When the key buffer cannot be allocated, \<open>stress_tsearch\<close> returns
  \<open>EXIT_NO_RESOURCE\<close>, which is not \<open>EXIT_SUCCESS\<close>, before the loop starts: the counter is
  zero, \<open>tsearch\<close> has not been called, and the only event is the \<open>pr_fail\<close> message.
\<close>

theorem buffer_allocation_failure:
  assumes "\<not> calloc_ok env"
  shows "\<exists>st. stress_tsearch ops env = Some (EXIT_NO_RESOURCE, st) \<and>
           EXIT_NO_RESOURCE \<noteq> EXIT_SUCCESS \<and>
           counter st = 0 \<and> searches st = 0 \<and> draws st = 0 \<and> keeps st = 0 \<and> data st = [] \<and>
           log st = [Ev_fail Out_of_memory]"
  using assms by (simp add: stress_tsearch_def pr_fail_def init_state_def Let_def)

theorem buffer_allocation_failure_witness:
  "\<not> calloc_ok env_no_buffer \<and>
   stress_tsearch bst_ops env_no_buffer =
     Some (EXIT_NO_RESOURCE,
           \<lparr>data = [], root = Leaf, counter = 0, draws = 0, searches = 0, flags = 0, keeps = 0,
            log = [Ev_fail Out_of_memory]\<rparr>)"
proof -
  have h: "\<not> calloc_ok env_no_buffer" by (simp add: env_no_buffer_def)
  from buffer_allocation_failure [OF h, of bst_ops] h show ?thesis
    by (simp add: stress_tsearch_def pr_fail_def init_state_def emit_def bst_ops_def)
qed

lemma insert_all_inv:
  "bst d t \<Longrightarrow> bst d (insert_all d ks t) \<and> keys (insert_all d ks t) \<subseteq> keys t \<union> set ks \<and>
     vals d t \<union> (\<lambda>k. d ! k) ` set ks \<subseteq> vals d (insert_all d ks t)"
proof (induction ks arbitrary: t)
  case Nil
  then show ?case by simp
next
  case (Cons k ks)
  from tree_insert_total [of d k t] obtain p t' where i: "tree_insert True d k t = Some (p, t')"
    by auto
  note ik = tree_insert_keys [OF i]
  from i Cons.prems have b: "bst d t'" by (rule tree_insert_bst)
  from ik have pk: "p \<in> keys t'" "d ! p = d ! k" by simp_all
  have vk: "d ! k \<in> vals d t'"
    unfolding vals_def using imageI [OF pk(1), of "\<lambda>x. d ! x"] pk(2) by simp
  from ik have vt: "vals d t \<subseteq> vals d t'" by (auto simp: vals_def)
  from Cons.IH [OF b] ik vk vt show ?case by (auto simp: i)
qed

text \<open>
  Claim C6. Over a buffer of pairwise distinct values, after inserting the elements \<open>ks\<close>
  in any order into the empty tree, looking up any of them finds the node that refers to
  exactly that element, so the value stored equals the key.
\<close>

theorem insert_then_find:
  assumes "distinct d" "set ks \<subseteq> {..<length d}" "k \<in> set ks"
  shows "tree_find d k (insert_all d ks Leaf) = Some k \<and>
         d ! the (tree_find d k (insert_all d ks Leaf)) = d ! k"
proof -
  let ?t = "insert_all d ks Leaf"
  from insert_all_inv [of d Leaf ks] have b: "bst d ?t" and ks: "keys ?t \<subseteq> set ks"
    and v: "(\<lambda>k. d ! k) ` set ks \<subseteq> vals d ?t" by simp_all
  from v assms(3) obtain x where x: "x \<in> keys ?t" "d ! x = d ! k" by (auto simp: vals_def)
  from tree_find_value [OF b x] obtain y where y: "y \<in> keys ?t" "tree_find d k ?t = Some y"
    "d ! y = d ! k" by blast
  from y(1) ks assms(2) have "y < length d" by auto
  moreover from assms(2,3) have "k < length d" by auto
  ultimately have "y = k" using assms(1) y(3) by (simp add: nth_eq_iff_index_eq)
  with y(2) show ?thesis by simp
qed

theorem insert_then_find_witness:
  "distinct [5, 3, 8, 1, 4, 7, 9, 2 :: int32] \<and>
   set [0, 1, 2, 3, 4, 5, 6, 7] \<subseteq> {..<length [5, 3, 8, 1, 4, 7, 9, 2 :: int32]} \<and>
   (2::nat) \<in> set [0, 1, 2, 3, 4, 5, 6, 7] \<and>
   insert_all [5, 3, 8, 1, 4, 7, 9, 2] [0, 1, 2, 3, 4, 5, 6, 7] Leaf =
     Node (Node (Node Leaf 3 (Node Leaf 7 Leaf)) 1 (Node Leaf 4 Leaf)) 0
          (Node (Node Leaf 5 Leaf) 2 (Node Leaf 6 Leaf)) \<and>
   tree_find [5, 3, 8, 1, 4, 7, 9, 2] 2
     (insert_all [5, 3, 8, 1, 4, 7, 9, 2] [0, 1, 2, 3, 4, 5, 6, 7] Leaf) = Some 2"
proof -
  have h1: "distinct [5, 3, 8, 1, 4, 7, 9, 2 :: int32]" by simp
  have h2: "set [0, 1, 2, 3, 4, 5, 6, 7] \<subseteq> {..<length [5, 3, 8, 1, 4, 7, 9, 2 :: int32]}"
    by simp
  have h3: "(2::nat) \<in> set [0, 1, 2, 3, 4, 5, 6, 7]" by simp
  have t: "insert_all [5, 3, 8, 1, 4, 7, 9, 2] [0, 1, 2, 3, 4, 5, 6, 7] Leaf =
     Node (Node (Node Leaf 3 (Node Leaf 7 Leaf)) 1 (Node Leaf 4 Leaf)) 0
          (Node (Node Leaf 5 Leaf) 2 (Node Leaf 6 Leaf))"
    by (simp add: Let_def stress_sort_cmp_int32_def)
  from insert_then_find [OF h1 h2 h3] h1 h2 h3 t show ?thesis by simp
qed

lemma bst_ops_total: "\<forall>d k t. tsearch bst_ops True d k t \<noteq> None"
  by (simp add: bst_ops_def tree_insert_total)

lemma delete_elem_flag:
  "delete_elem ops (env\<lparr>flag := f\<rparr>) i st = delete_elem ops env i st"
  by (simp add: delete_elem_def verify_delete_def)

lemma drain_flag:
  "drain ops (env\<lparr>flag := f\<rparr>) n i st = drain ops env n i st"
proof (induction ops env n i st rule: drain.induct)
  case (1 ops env n i st)
  show ?case
  proof (cases "i < n")
    case True
    with "1.IH" show ?thesis by (simp add: drain_step delete_elem_flag)
  next
    case False
    then show ?thesis by (simp add: drain_stop)
  qed
qed

lemma stress_tsearch_cycles:
  assumes ins: "\<forall>d k t. tsearch ops True d k t \<noteq> None" and mem: "\<forall>k. malloc_ok env k"
    and buf: "calloc_ok env" and go: "\<forall>j<K. keep env j" and stop: "\<not> keep env K"
  shows "\<exists>s s1. cycle ops env (tsearch_size env) s = Inr s1 \<and>
       stress_tsearch ops env =
         Some (EXIT_SUCCESS, emit [Ev_keep False] (s1\<lparr>keeps := Suc (keeps s1)\<rparr>)) \<and>
       counter s = K \<and> draws s = K * tsearch_size env \<and> keeps s = K \<and>
       length (data s) = tsearch_size env \<and>
       (K = 0 \<longrightarrow> s = init_state ops (replicate (tsearch_size env) 0)) \<and>
       updates (log s) = concat (replicate K
         (map Ev_tsearch [0..<tsearch_size env] @ map Ev_tdelete [0..<tsearch_size env] @
          [Ev_inc, Ev_keep True]))"
proof -
  let ?n = "tsearch_size env"
  let ?st0 = "init_state ops (replicate ?n 0)"
  have z: "keeps ?st0 = 0" "counter ?st0 = 0" "draws ?st0 = 0" "log ?st0 = []"
    "length (data ?st0) = ?n"
    by (simp_all add: init_state_def)
  from go stop have "\<forall>j<K. keep env (keeps ?st0 + j)" "\<not> keep env (keeps ?st0 + K)"
    by (simp_all add: z)
  from do_while_cycles [OF ins mem this, of ?n] obtain s s1 L where r:
    "cycle ops env ?n s = Inr s1"
    "do_while ops env ?n ?st0 = Some (emit [Ev_keep False] (s1\<lparr>keeps := Suc (keeps s1)\<rparr>))"
    "counter s = counter ?st0 + K" "draws s = draws ?st0 + K * ?n" "keeps s = keeps ?st0 + K"
    "length (data s) = length (data ?st0)" "K = 0 \<longrightarrow> s = ?st0" "log s = log ?st0 @ L"
    "updates L = concat (replicate K
         (map Ev_tsearch [0..<?n] @ map Ev_tdelete [0..<?n] @ [Ev_inc, Ev_keep True]))"
    by blast
  have "stress_tsearch ops env =
         Some (EXIT_SUCCESS, emit [Ev_keep False] (s1\<lparr>keeps := Suc (keeps s1)\<rparr>))"
    using buf r(2) by (simp add: stress_tsearch_def Let_def)
  moreover have "updates (log s) = concat (replicate K
         (map Ev_tsearch [0..<?n] @ map Ev_tdelete [0..<?n] @ [Ev_inc, Ev_keep True]))"
    using r(8,9) z(4) by simp
  ultimately show ?thesis using r(1,3,4,5,6,7) z by (intro exI [of _ s] exI [of _ s1]) simp
qed

text \<open>
  Claim C3, as the code has it. When no allocation fails and \<open>keep_stressing\<close> answers
  true \<open>K - 1\<close> times and then false, so that exactly \<open>K \<ge> 1\<close> cycles may run, the run ends
  with the counter at \<open>K\<close>.
  Leaving the diagnostics and the lookup phase aside, the run is \<open>K\<close> times: \<open>tsearch\<close> of all
  elements, \<open>tdelete\<close> of all elements, one \<open>inc_counter\<close>, one call of \<open>keep_stressing\<close>.
  The tree is empty when the first cycle starts and when the last one has ended.
\<close>

theorem cycle_accounting:
  assumes "1 \<le> K" "\<forall>k<K - 1. keep env k" "\<not> keep env (K - 1)"
    and "calloc_ok env" "\<forall>k. malloc_ok env k"
  shows "\<exists>st'. stress_tsearch bst_ops env = Some (EXIT_SUCCESS, st') \<and>
           counter st' = K \<and>
           updates (log st') =
             concat (replicate (K - 1)
               (map Ev_tsearch [0..<tsearch_size env] @ map Ev_tdelete [0..<tsearch_size env] @
                [Ev_inc, Ev_keep True])) @
             map Ev_tsearch [0..<tsearch_size env] @ map Ev_tdelete [0..<tsearch_size env] @
             [Ev_inc, Ev_keep False] \<and>
           root (init_state bst_ops (replicate (tsearch_size env) 0)) = Leaf \<and>
           root st' = Leaf"
proof -
  let ?n = "tsearch_size env"
  from stress_tsearch_cycles [OF bst_ops_total assms(5,4,2,3)] obtain s s1 where r:
    "cycle bst_ops env ?n s = Inr s1"
    "stress_tsearch bst_ops env =
       Some (EXIT_SUCCESS, emit [Ev_keep False] (s1\<lparr>keeps := Suc (keeps s1)\<rparr>))"
    "counter s = K - 1"
    "updates (log s) = concat (replicate (K - 1)
         (map Ev_tsearch [0..<?n] @ map Ev_tdelete [0..<?n] @ [Ev_inc, Ev_keep True]))"
    by blast
  let ?st' = "emit [Ev_keep False] (s1\<lparr>keeps := Suc (keeps s1)\<rparr>)"
  from cycle_Inr_log [OF r(1)] obtain Lc where lc: "log s1 = log s @ Lc"
    "updates Lc = map Ev_tsearch [0..<?n] @ map Ev_tdelete [0..<?n] @ [Ev_inc]"
    by blast
  have c: "counter ?st' = K" using cycle_Inr_fields(1) [OF r(1)] r(3) assms(1) by simp
  have u: "updates (log ?st') =
             concat (replicate (K - 1)
               (map Ev_tsearch [0..<?n] @ map Ev_tdelete [0..<?n] @ [Ev_inc, Ev_keep True])) @
             map Ev_tsearch [0..<?n] @ map Ev_tdelete [0..<?n] @ [Ev_inc, Ev_keep False]"
    by (simp add: lc r(4))
  have e: "root ?st' = Leaf" using cycle_bst_root [OF r(1)] by simp
  have i: "root (init_state bst_ops (replicate ?n 0)) = Leaf"
    by (simp add: init_state_def bst_ops_def)
  from r(2) c u e i show ?thesis by blast
qed

theorem cycle_accounting_witness:
  "(1::nat) \<le> 3 \<and> keep env_run 0 \<and> keep env_run 1 \<and> \<not> keep env_run (3 - 1) \<and>
   calloc_ok env_run \<and> (\<forall>k. malloc_ok env_run k) \<and>
   (\<exists>st'. stress_tsearch bst_ops env_run = Some (EXIT_SUCCESS, st') \<and>
      counter st' = 3 \<and> root st' = Leaf \<and>
      updates (log st') =
        map Ev_tsearch [0..<1024] @ map Ev_tdelete [0..<1024] @ [Ev_inc, Ev_keep True] @
        map Ev_tsearch [0..<1024] @ map Ev_tdelete [0..<1024] @ [Ev_inc, Ev_keep True] @
        map Ev_tsearch [0..<1024] @ map Ev_tdelete [0..<1024] @ [Ev_inc, Ev_keep False])"
proof -
  have h: "(1::nat) \<le> 3" "\<forall>k<3 - 1. keep env_run k" "\<not> keep env_run (3 - 1)"
    "calloc_ok env_run" "\<forall>k. malloc_ok env_run k"
    by (simp_all add: env_run_def)
  have n: "tsearch_size env_run = 1024" by (simp add: tsearch_size_def env_run_def)
  have two: "replicate (3 - 1) x = [x, x]" for x :: "event list"
    by (simp add: numeral_2_eq_2)
  have k: "keep env_run 0" "keep env_run 1" by (simp_all add: env_run_def)
  from cycle_accounting [OF h] h k show ?thesis
    unfolding n two by (auto simp del: upt_Suc)
qed

lemma key_0_n: "tsearch_key 0 i = word_of_nat i"
  unfolding tsearch_key_def TSEARCH_SIZE_SHIFT_def
  by (rule bit_word_eqI) (auto simp add: bit_simps)

lemma key_1_0: "tsearch_key 1 0 = 4194304"
  by (simp add: tsearch_key_def TSEARCH_SIZE_SHIFT_def)

lemma size_run: "tsearch_size env_run = 1024"
  by (simp add: tsearch_size_def env_run_def)

lemma size_node_fail: "tsearch_size env_node_fail = 1024"
  by (simp add: tsearch_size_def env_node_fail_def env_run_def)

lemma size_cancel: "tsearch_size env_cancel = 1024"
  by (simp add: tsearch_size_def env_cancel_def env_run_def)

lemma run_node_fail:
  "\<exists>d. do_while bst_ops env_node_fail 1024 (init_state bst_ops (replicate 1024 0)) =
     Some \<lparr>data = d, root = Leaf, counter = 0, draws = 4, searches = 4, flags = 0, keeps = 0,
           log = [Ev_tsearch 0, Ev_tsearch 1, Ev_tsearch 2, Ev_tsearch 3, Ev_err,
                  Ev_tdelete 0, Ev_tdelete 1, Ev_tdelete 2]\<rparr>"
  by (subst do_while.simps)
    (simp add: cycle_def populate.simps populate_elem_def init_state_def env_node_fail_def
      env_run_def bst_ops_def key_0_n emit_def Let_def stress_sort_cmp_int32_def cleanup.simps)

lemma stress_node_fail:
  "\<exists>d. stress_tsearch bst_ops env_node_fail =
     Some (EXIT_SUCCESS,
           \<lparr>data = d, root = Leaf, counter = 0, draws = 4, searches = 4, flags = 0, keeps = 0,
            log = [Ev_tsearch 0, Ev_tsearch 1, Ev_tsearch 2, Ev_tsearch 3, Ev_err,
                   Ev_tdelete 0, Ev_tdelete 1, Ev_tdelete 2]\<rparr>)"
proof -
  from run_node_fail obtain d where
    "do_while bst_ops env_node_fail 1024 (init_state bst_ops (replicate 1024 0)) =
     Some \<lparr>data = d, root = Leaf, counter = 0, draws = 4, searches = 4, flags = 0, keeps = 0,
           log = [Ev_tsearch 0, Ev_tsearch 1, Ev_tsearch 2, Ev_tsearch 3, Ev_err,
                  Ev_tdelete 0, Ev_tdelete 1, Ev_tdelete 2]\<rparr>" ..
  moreover have "calloc_ok env_node_fail" by (simp add: env_node_fail_def env_run_def)
  ultimately show ?thesis by (simp add: stress_tsearch_def size_node_fail)
qed

text \<open>
  Without the first hypothesis the claim fails: on the run \<open>env_node_fail\<close> the answers
  of \<open>keep_stressing\<close> permit exactly three cycles, the fourth insertion of the first
  populate phase finds no memory, and the run ends with the counter at 0, not 3.
\<close>

theorem cycle_accounting_counterexample:
  "keep env_node_fail 0 \<and> keep env_node_fail 1 \<and> \<not> keep env_node_fail 2 \<and>
   stress_tsearch bst_ops env_node_fail \<noteq> None \<and>
   counter (snd (the (stress_tsearch bst_ops env_node_fail))) \<noteq> 3 \<and>
   counter (snd (the (stress_tsearch bst_ops env_node_fail))) = 0"
proof -
  from stress_node_fail obtain d where
    "stress_tsearch bst_ops env_node_fail =
     Some (EXIT_SUCCESS,
           \<lparr>data = d, root = Leaf, counter = 0, draws = 4, searches = 4, flags = 0, keeps = 0,
            log = [Ev_tsearch 0, Ev_tsearch 1, Ev_tsearch 2, Ev_tsearch 3, Ev_err,
                   Ev_tdelete 0, Ev_tdelete 1, Ev_tdelete 2]\<rparr>)" ..
  moreover have "keep env_node_fail 0" "keep env_node_fail 1" "\<not> keep env_node_fail 2"
    by (simp_all add: env_node_fail_def env_run_def)
  ultimately show ?thesis by simp
qed

text \<open>
  Claim C2, at the run \<open>env_node_fail\<close>, where the allocator refuses the node of element 3
  in the first populate phase: the loop calls \<open>tdelete\<close> for the elements 0, 1 and 2 and
  nothing else, the tree is empty, no cycle is counted and the run ends; the value
  returned is \<open>EXIT_SUCCESS\<close>, the one a run without failure returns.
\<close>

theorem node_allocation_failure_returns_success:
  "\<exists>st. stress_tsearch bst_ops env_node_fail = Some (EXIT_SUCCESS, st) \<and>
        log st = [Ev_tsearch 0, Ev_tsearch 1, Ev_tsearch 2, Ev_tsearch 3, Ev_err,
                  Ev_tdelete 0, Ev_tdelete 1, Ev_tdelete 2] \<and>
        root st = Leaf \<and> counter st = 0 \<and> keeps st = 0"
proof -
  from stress_node_fail obtain d where
    "stress_tsearch bst_ops env_node_fail =
     Some (EXIT_SUCCESS,
           \<lparr>data = d, root = Leaf, counter = 0, draws = 4, searches = 4, flags = 0, keeps = 0,
            log = [Ev_tsearch 0, Ev_tsearch 1, Ev_tsearch 2, Ev_tsearch 3, Ev_err,
                   Ev_tdelete 0, Ev_tdelete 1, Ev_tdelete 2]\<rparr>)" ..
  then show ?thesis by simp
qed

lemma lookup_calls:
  "\<exists>k\<le>n. (\<forall>j<k. flag env (flags st + j)) \<and> (k < n \<longrightarrow> \<not> flag env (flags st + k)) \<and>
          flags (lookup ops env n 0 st) = Suc (flags st + k) \<and>
          calls (emitted st (lookup ops env n 0 st)) =
            concat (map (\<lambda>j. [Ev_flag True, Ev_tfind j]) [0..<k]) @
            [Ev_flag (flag env (flags st + k))]"
proof -
  from lookup_log [of 0 n env st ops] obtain k where k: "k \<le> n" "\<forall>j<k. flag env (flags st + j)"
    "k < n \<longrightarrow> \<not> flag env (flags st + k)"
    "flags (lookup ops env n 0 st) = Suc (flags st + k)"
    "log (lookup ops env n 0 st) = log st @
       concat (map (\<lambda>j. Ev_flag True # Ev_tfind j # verify_find ops env (data st) (root st) j)
                 [0..<k]) @
       [Ev_flag (flag env (flags st + k))]"
    by auto
  let ?S = "concat (map (\<lambda>j. Ev_flag True # Ev_tfind j # verify_find ops env (data st) (root st) j)
                 [0..<k])"
  have c: "calls ?S = concat (map (\<lambda>j. [Ev_flag True, Ev_tfind j]) [0..<k])"
    by (rule calls_scan)
  from k(5) have "emitted st (lookup ops env n 0 st) = ?S @ [Ev_flag (flag env (flags st + k))]"
    by (rule emitted_append)
  then have "calls (emitted st (lookup ops env n 0 st)) =
      concat (map (\<lambda>j. [Ev_flag True, Ev_tfind j]) [0..<k]) @
      [Ev_flag (flag env (flags st + k))]"
    unfolding c [symmetric] by simp
  with k(1,2,3,4) show ?thesis by blast
qed

lemma drain_calls:
  "calls (emitted st (drain ops env n 0 st)) = map Ev_tdelete [0..<n]"
proof -
  let ?L = "concat (map (\<lambda>j. Ev_tdelete j #
                   verify_delete env
                     (fst (tdelete ops (data st) j (root (drain ops env j 0 st)))) j)
               [0..<n])"
  have "log (drain ops env n 0 st) = log st @ ?L" by (rule drain_log) simp
  then have "emitted st (drain ops env n 0 st) = ?L" by (rule emitted_append)
  moreover have "calls ?L = map Ev_tdelete [0..<n]" by (rule calls_drain)
  ultimately show ?thesis by simp
qed

text \<open>
  Claim C4. Leaving the diagnostics aside, the lookup phase is: for each of its first \<open>k\<close>
  elements one call of \<open>keep_stressing_flag\<close> answering true and then \<open>tfind\<close> of that
  element, and one more call of the flag, which answers false whenever \<open>k < n\<close>, after which
  the phase is over. The drain phase is \<open>tdelete\<close> of every one of the \<open>n\<close> elements; it
  never calls the flag and its result does not depend on the flag's answers. A cycle that
  reaches its end is \<open>tsearch\<close> of every element, such a lookup phase, \<open>tdelete\<close> of every
  element and \<open>inc_counter\<close>.
\<close>

theorem lookup_cancellable_drain_complete:
  "(\<exists>k\<le>n. (\<forall>j<k. flag env (flags st + j)) \<and> (k < n \<longrightarrow> \<not> flag env (flags st + k)) \<and>
      flags (lookup ops env n 0 st) = Suc (flags st + k) \<and>
      calls (emitted st (lookup ops env n 0 st)) =
        concat (map (\<lambda>j. [Ev_flag True, Ev_tfind j]) [0..<k]) @
        [Ev_flag (flag env (flags st + k))]) \<and>
   calls (emitted st (drain ops env n 0 st)) = map Ev_tdelete [0..<n] \<and>
   flags (drain ops env n 0 st) = flags st \<and>
   (\<forall>f. drain ops (env\<lparr>flag := f\<rparr>) n 0 st = drain ops env n 0 st) \<and>
   (\<forall>st'. cycle ops env n st = Inr st' \<longrightarrow>
      (\<exists>k\<le>n. (\<forall>j<k. flag env (flags st + j)) \<and> (k < n \<longrightarrow> \<not> flag env (flags st + k)) \<and>
         calls (emitted st st') =
           map Ev_tsearch [0..<n] @
           concat (map (\<lambda>j. [Ev_flag True, Ev_tfind j]) [0..<k]) @
           [Ev_flag (flag env (flags st + k))] @
           map Ev_tdelete [0..<n] @ [Ev_inc]))"
proof -
  have e: "\<forall>st'. cycle ops env n st = Inr st' \<longrightarrow>
      (\<exists>k\<le>n. (\<forall>j<k. flag env (flags st + j)) \<and> (k < n \<longrightarrow> \<not> flag env (flags st + k)) \<and>
         calls (emitted st st') =
           map Ev_tsearch [0..<n] @
           concat (map (\<lambda>j. [Ev_flag True, Ev_tfind j]) [0..<k]) @
           [Ev_flag (flag env (flags st + k))] @
           map Ev_tdelete [0..<n] @ [Ev_inc])"
  proof (intro allI impI)
    fix st' assume c: "cycle ops env n st = Inr st'"
    from cycle_Inr_log [OF c] obtain k L where k: "k \<le> n" "\<forall>j<k. flag env (flags st + j)"
      "k < n \<longrightarrow> \<not> flag env (flags st + k)" "log st' = log st @ L"
      "calls L = map Ev_tsearch [0..<n] @
                 concat (map (\<lambda>j. [Ev_flag True, Ev_tfind j]) [0..<k]) @
                 [Ev_flag (flag env (flags st + k))] @
                 map Ev_tdelete [0..<n] @ [Ev_inc]"
      by blast
    from k(4) have "emitted st st' = L" by (rule emitted_append)
    with k(1,2,3,5) show "\<exists>k\<le>n. (\<forall>j<k. flag env (flags st + j)) \<and>
         (k < n \<longrightarrow> \<not> flag env (flags st + k)) \<and>
         calls (emitted st st') =
           map Ev_tsearch [0..<n] @
           concat (map (\<lambda>j. [Ev_flag True, Ev_tfind j]) [0..<k]) @
           [Ev_flag (flag env (flags st + k))] @
           map Ev_tdelete [0..<n] @ [Ev_inc]"
      by auto
  qed
  have f: "flags (drain ops env n 0 st) = flags st" by (simp add: drain_fields)
  from lookup_calls [of n env st ops] drain_calls [of st ops env n] f e
  show ?thesis by (simp add: drain_flag)
qed

theorem lookup_cancellable_drain_complete_witness:
  "cycle bst_ops env_small 2 (init_state bst_ops [0, 0]) =
     Inr \<lparr>data = [20971520, 12582913], root = Leaf, counter = 1, draws = 2, searches = 2,
          flags = 2, keeps = 0,
          log = [Ev_tsearch 0, Ev_tsearch 1, Ev_flag True, Ev_tfind 0, Ev_flag False,
                 Ev_tdelete 0, Ev_tdelete 1, Ev_inc]\<rparr> \<and>
   flag env_small 0 \<and> \<not> flag env_small 1 \<and>
   (\<exists>k\<le>2. calls [Ev_tsearch 0, Ev_tsearch 1, Ev_flag True, Ev_tfind 0, Ev_flag False,
                  Ev_tdelete 0, Ev_tdelete 1, Ev_inc] =
             map Ev_tsearch [0..<2] @
             concat (map (\<lambda>j. [Ev_flag True, Ev_tfind j]) [0..<k]) @
             [Ev_flag (flag env_small k)] @ map Ev_tdelete [0..<2] @ [Ev_inc]) \<and>
   calls (emitted (init_state bst_ops [0, 0])
            (drain bst_ops env_small 2 0 (init_state bst_ops [0, 0]))) =
     [Ev_tdelete 0, Ev_tdelete 1]"
proof -
  note t = lookup_cancellable_drain_complete [of 2 env_small "init_state bst_ops [0, 0]" bst_ops]
  have f: "flag env_small 0" "\<not> flag env_small 1" by (simp_all add: env_small_def)
  from t cycle_small have "\<exists>k\<le>2. (\<forall>j<k. flag env_small (flags (init_state bst_ops [0, 0]) + j)) \<and>
         (k < 2 \<longrightarrow> \<not> flag env_small (flags (init_state bst_ops [0, 0]) + k)) \<and>
         calls (emitted (init_state bst_ops [0, 0])
            \<lparr>data = [20971520, 12582913], root = Leaf, counter = 1, draws = 2, searches = 2,
          flags = 2, keeps = 0,
          log = [Ev_tsearch 0, Ev_tsearch 1, Ev_flag True, Ev_tfind 0, Ev_flag False,
                 Ev_tdelete 0, Ev_tdelete 1, Ev_inc]\<rparr>) =
           map Ev_tsearch [0..<2] @
           concat (map (\<lambda>j. [Ev_flag True, Ev_tfind j]) [0..<k]) @
           [Ev_flag (flag env_small (flags (init_state bst_ops [0, 0]) + k))] @
           map Ev_tdelete [0..<2] @ [Ev_inc]"
    by blast
  then have a: "\<exists>k\<le>2. calls [Ev_tsearch 0, Ev_tsearch 1, Ev_flag True, Ev_tfind 0, Ev_flag False,
                  Ev_tdelete 0, Ev_tdelete 1, Ev_inc] =
             map Ev_tsearch [0..<2] @
             concat (map (\<lambda>j. [Ev_flag True, Ev_tfind j]) [0..<k]) @
             [Ev_flag (flag env_small k)] @ map Ev_tdelete [0..<2] @ [Ev_inc]"
    by (auto simp add: emitted_def init_state_def)
  from t have "calls (emitted (init_state bst_ops [0, 0])
            (drain bst_ops env_small 2 0 (init_state bst_ops [0, 0]))) = map Ev_tdelete [0..<2]"
    by blast
  then have b: "calls (emitted (init_state bst_ops [0, 0])
            (drain bst_ops env_small 2 0 (init_state bst_ops [0, 0]))) =
     [Ev_tdelete 0, Ev_tdelete 1]"
    by (simp add: upt_rec)
  from cycle_small f a b show ?thesis by blast
qed

lemma emitted_find_elem:
  "emitted st (find_elem ops env i st) = Ev_tfind i # verify_find ops env (data st) (root st) i"
  by (rule emitted_append) simp

lemma emitted_delete_elem:
  "emitted st (delete_elem ops env i st) =
     Ev_tdelete i # verify_delete env (fst (tdelete ops (data st) i (root st))) i"
  by (rule emitted_append) simp

text \<open>
  Claim C5. With verification on: the events of one element of the lookup phase are the
  \<open>tfind\<close> call followed by exactly one \<open>pr_fail\<close> when nothing is found, by exactly one
  when the value found differs from \<open>data[i]\<close>, and by none otherwise; the events of one
  element of the drain phase are the \<open>tdelete\<close> call followed by exactly one \<open>pr_fail\<close> when
  nothing is found. The lookup phase is these events for every element up to the
  cancellation, the drain phase is these events for every one of the \<open>n\<close> elements: no
  report ends a phase. A cycle whose populate phase ends always ends itself, with the
  counter incremented, and the run then goes on exactly when \<open>keep_stressing\<close> says so.
\<close>

theorem verification_reports_continue:
  assumes "verify env"
  shows
   "emitted st (find_elem ops env i st) =
      Ev_tfind i #
      (case tfind ops (data st) i (root st) of
         None \<Rightarrow> [Ev_fail (Not_found i)]
       | Some x \<Rightarrow>
           if data st ! x \<noteq> data st ! i
           then [Ev_fail (Mismatch i (data st ! x) (data st ! i))] else []) \<and>
    emitted st (delete_elem ops env i st) =
      Ev_tdelete i #
      (if fst (tdelete ops (data st) i (root st)) = None then [Ev_fail (Not_found i)] else []) \<and>
    (\<exists>k\<le>n. (\<forall>j<k. flag env (flags st + j)) \<and> (k < n \<longrightarrow> \<not> flag env (flags st + k)) \<and>
       emitted st (lookup ops env n 0 st) =
         concat (map (\<lambda>j. Ev_flag True # emitted st (find_elem ops env j st)) [0..<k]) @
         [Ev_flag (flag env (flags st + k))]) \<and>
    emitted st (drain ops env n 0 st) =
      concat (map (\<lambda>j. emitted (drain ops env j 0 st)
                          (delete_elem ops env j (drain ops env j 0 st))) [0..<n]) \<and>
    (\<forall>st1. populate ops env n 0 (st\<lparr>root := null ops\<rparr>) = Inr st1 \<longrightarrow>
       cycle ops env n st = Inr (inc_counter (drain ops env n 0 (lookup ops env n 0 st1))) \<and>
       counter (inc_counter (drain ops env n 0 (lookup ops env n 0 st1))) = Suc (counter st)) \<and>
    (\<forall>st'. cycle ops env n st = Inr st' \<longrightarrow>
       do_while ops env n st =
         (if keep env (keeps st')
          then do_while ops env n (emit [Ev_keep True] (st'\<lparr>keeps := Suc (keeps st')\<rparr>))
          else Some (emit [Ev_keep False] (st'\<lparr>keeps := Suc (keeps st')\<rparr>))))"
proof -
  have a: "emitted st (find_elem ops env i st) =
      Ev_tfind i #
      (case tfind ops (data st) i (root st) of
         None \<Rightarrow> [Ev_fail (Not_found i)]
       | Some x \<Rightarrow>
           if data st ! x \<noteq> data st ! i
           then [Ev_fail (Mismatch i (data st ! x) (data st ! i))] else [])"
    using assms by (simp add: emitted_find_elem verify_find_def)
  have b: "emitted st (delete_elem ops env i st) =
      Ev_tdelete i #
      (if fst (tdelete ops (data st) i (root st)) = None then [Ev_fail (Not_found i)] else [])"
    using assms by (simp add: emitted_delete_elem verify_delete_def)
  from lookup_log [of 0 n env st ops] obtain k where k: "k \<le> n" "\<forall>j<k. flag env (flags st + j)"
    "k < n \<longrightarrow> \<not> flag env (flags st + k)"
    "log (lookup ops env n 0 st) = log st @
       concat (map (\<lambda>j. Ev_flag True # Ev_tfind j # verify_find ops env (data st) (root st) j)
                 [0..<k]) @
       [Ev_flag (flag env (flags st + k))]"
    by auto
  have "emitted st (lookup ops env n 0 st) =
         concat (map (\<lambda>j. Ev_flag True # emitted st (find_elem ops env j st)) [0..<k]) @
         [Ev_flag (flag env (flags st + k))]"
    unfolding emitted_find_elem using k(4) by (rule emitted_append)
  with k(1,2,3) have c: "\<exists>k\<le>n. (\<forall>j<k. flag env (flags st + j)) \<and>
       (k < n \<longrightarrow> \<not> flag env (flags st + k)) \<and>
       emitted st (lookup ops env n 0 st) =
         concat (map (\<lambda>j. Ev_flag True # emitted st (find_elem ops env j st)) [0..<k]) @
         [Ev_flag (flag env (flags st + k))]"
    by blast
  have d: "emitted st (drain ops env n 0 st) =
      concat (map (\<lambda>j. emitted (drain ops env j 0 st)
                          (delete_elem ops env j (drain ops env j 0 st))) [0..<n])"
    unfolding emitted_delete_elem
    by (rule emitted_append) (simp add: drain_log drain_fields)
  have e: "\<forall>st1. populate ops env n 0 (st\<lparr>root := null ops\<rparr>) = Inr st1 \<longrightarrow>
       cycle ops env n st = Inr (inc_counter (drain ops env n 0 (lookup ops env n 0 st1))) \<and>
       counter (inc_counter (drain ops env n 0 (lookup ops env n 0 st1))) = Suc (counter st)"
  proof (intro allI impI)
    fix st1 assume p: "populate ops env n 0 (st\<lparr>root := null ops\<rparr>) = Inr st1"
    then have cy: "cycle ops env n st = Inr (inc_counter (drain ops env n 0 (lookup ops env n 0 st1)))"
      by (simp add: cycle_def)
    from cycle_Inr_fields(1) [OF cy] cy
    show "cycle ops env n st = Inr (inc_counter (drain ops env n 0 (lookup ops env n 0 st1))) \<and>
       counter (inc_counter (drain ops env n 0 (lookup ops env n 0 st1))) = Suc (counter st)"
      by simp
  qed
  have f: "\<forall>st'. cycle ops env n st = Inr st' \<longrightarrow>
       do_while ops env n st =
         (if keep env (keeps st')
          then do_while ops env n (emit [Ev_keep True] (st'\<lparr>keeps := Suc (keeps st')\<rparr>))
          else Some (emit [Ev_keep False] (st'\<lparr>keeps := Suc (keeps st')\<rparr>)))"
    by (auto simp: do_while_again do_while_stop)
  from a b c d e f show ?thesis by blast
qed

lemma lookup_faulty:
  "lookup faulty_ops env_run 2 0 (init_state faulty_ops [7, 9]) =
     \<lparr>data = [7, 9], root = Leaf, counter = 0, draws = 0, searches = 0, flags = 3, keeps = 0,
      log = [Ev_flag True, Ev_tfind 0, Ev_fail (Not_found 0),
             Ev_flag True, Ev_tfind 1, Ev_fail (Mismatch 1 7 9), Ev_flag True]\<rparr>"
  by (simp add: lookup.simps find_elem_def verify_find_def init_state_def env_run_def
      faulty_ops_def bst_ops_def emit_def)

lemma drain_faulty:
  "drain faulty_ops env_run 2 0 (init_state faulty_ops [7, 9]) =
     \<lparr>data = [7, 9], root = Leaf, counter = 0, draws = 0, searches = 0, flags = 0, keeps = 0,
      log = [Ev_tdelete 0, Ev_fail (Not_found 0), Ev_tdelete 1, Ev_fail (Not_found 1)]\<rparr>"
  by (simp add: drain.simps delete_elem_def verify_delete_def init_state_def env_run_def
      faulty_ops_def bst_ops_def emit_def)

lemma cycle_faulty:
  "cycle faulty_ops env_run 2 (init_state faulty_ops [0, 0]) =
     Inr \<lparr>data = [0, 1], root = Node Leaf 0 (Node Leaf 1 Leaf), counter = 1, draws = 2,
          searches = 2, flags = 3, keeps = 0,
          log = [Ev_tsearch 0, Ev_tsearch 1, Ev_flag True, Ev_tfind 0, Ev_fail (Not_found 0),
                 Ev_flag True, Ev_tfind 1, Ev_fail (Mismatch 1 0 1), Ev_flag True,
                 Ev_tdelete 0, Ev_fail (Not_found 0), Ev_tdelete 1, Ev_fail (Not_found 1),
                 Ev_inc]\<rparr>"
  by (simp add: cycle_def populate.simps populate_elem_def init_state_def env_run_def
      faulty_ops_def bst_ops_def key_0_n emit_def Let_def stress_sort_cmp_int32_def lookup.simps
      drain.simps find_elem_def delete_elem_def verify_find_def verify_delete_def inc_counter_def)

theorem verification_reports_continue_witness:
  "verify env_run \<and>
   emitted (init_state faulty_ops [7, 9]) (find_elem faulty_ops env_run 0 (init_state faulty_ops [7, 9])) =
     [Ev_tfind 0, Ev_fail (Not_found 0)] \<and>
   emitted (init_state faulty_ops [7, 9]) (find_elem faulty_ops env_run 1 (init_state faulty_ops [7, 9])) =
     [Ev_tfind 1, Ev_fail (Mismatch 1 7 9)] \<and>
   emitted (init_state faulty_ops [7, 9]) (delete_elem faulty_ops env_run 1 (init_state faulty_ops [7, 9])) =
     [Ev_tdelete 1, Ev_fail (Not_found 1)] \<and>
   emitted (init_state faulty_ops [7, 9]) (lookup faulty_ops env_run 2 0 (init_state faulty_ops [7, 9])) =
     [Ev_flag True, Ev_tfind 0, Ev_fail (Not_found 0),
      Ev_flag True, Ev_tfind 1, Ev_fail (Mismatch 1 7 9), Ev_flag True] \<and>
   emitted (init_state faulty_ops [7, 9]) (drain faulty_ops env_run 2 0 (init_state faulty_ops [7, 9])) =
     [Ev_tdelete 0, Ev_fail (Not_found 0), Ev_tdelete 1, Ev_fail (Not_found 1)] \<and>
   (\<exists>st'. cycle faulty_ops env_run 2 (init_state faulty_ops [0, 0]) = Inr st' \<and> counter st' = 1)"
proof -
  have h: "verify env_run" by (simp add: env_run_def)
  have t: "tfind faulty_ops d 0 t = None" "tfind faulty_ops d (Suc 0) t = Some 0"
    "tdelete faulty_ops d k t = (None, t)" for d k t
    by (simp_all add: faulty_ops_def)
  note thm0 = verification_reports_continue [OF h, of "init_state faulty_ops [7, 9]" faulty_ops 0 2]
  note thm1 = verification_reports_continue [OF h, of "init_state faulty_ops [7, 9]" faulty_ops 1 2]
  have a: "emitted (init_state faulty_ops [7, 9])
      (find_elem faulty_ops env_run 0 (init_state faulty_ops [7, 9])) =
     [Ev_tfind 0, Ev_fail (Not_found 0)]"
    using thm0 [THEN conjunct1] by (simp add: t)
  have b: "emitted (init_state faulty_ops [7, 9])
      (find_elem faulty_ops env_run 1 (init_state faulty_ops [7, 9])) =
     [Ev_tfind 1, Ev_fail (Mismatch 1 7 9)]"
    using thm1 [THEN conjunct1] by (simp add: t init_state_def)
  have c: "emitted (init_state faulty_ops [7, 9])
      (delete_elem faulty_ops env_run 1 (init_state faulty_ops [7, 9])) =
     [Ev_tdelete 1, Ev_fail (Not_found 1)]"
    using thm1 [THEN conjunct2, THEN conjunct1] by (simp add: t)
  have d: "emitted (init_state faulty_ops [7, 9])
      (lookup faulty_ops env_run 2 0 (init_state faulty_ops [7, 9])) =
     [Ev_flag True, Ev_tfind 0, Ev_fail (Not_found 0),
      Ev_flag True, Ev_tfind 1, Ev_fail (Mismatch 1 7 9), Ev_flag True]"
    unfolding lookup_faulty by (simp add: emitted_def init_state_def)
  have e: "emitted (init_state faulty_ops [7, 9])
      (drain faulty_ops env_run 2 0 (init_state faulty_ops [7, 9])) =
     [Ev_tdelete 0, Ev_fail (Not_found 0), Ev_tdelete 1, Ev_fail (Not_found 1)]"
    unfolding drain_faulty by (simp add: emitted_def init_state_def)
  have f: "\<exists>st'. cycle faulty_ops env_run 2 (init_state faulty_ops [0, 0]) = Inr st' \<and> counter st' = 1"
    by (simp add: cycle_faulty)
  from h a b c d e f show ?thesis by blast
qed

text \<open>
  Claim C7, as the code has it. The buffer is allocated once, before the loop, but it is
  filled inside the loop: every populate phase draws a fresh value for every element. A
  run of \<open>K\<close> cycles without allocation failure has called \<open>stress_mwc16\<close> \<open>K * n\<close> times and
  ends with the keys of the draws of its last cycle in the buffer. Within a cycle the
  lookup and drain phases leave the buffer as the populate phase wrote it.
\<close>

theorem keys_redrawn_every_cycle:
  assumes "1 \<le> K" "\<forall>k<K - 1. keep env k" "\<not> keep env (K - 1)"
    and "calloc_ok env" "\<forall>k. malloc_ok env k"
  shows "\<exists>st'. stress_tsearch bst_ops env = Some (EXIT_SUCCESS, st') \<and>
           draws st' = K * tsearch_size env \<and>
           (\<forall>j<tsearch_size env.
              data st' ! j = tsearch_key (mwc16 env ((K - 1) * tsearch_size env + j)) j) \<and>
           (\<forall>s. data (drain bst_ops env (tsearch_size env) 0
                        (lookup bst_ops env (tsearch_size env) 0 s)) = data s)"
proof -
  let ?n = "tsearch_size env"
  from stress_tsearch_cycles [OF bst_ops_total assms(5,4,2,3)] obtain s s1 where r:
    "cycle bst_ops env ?n s = Inr s1"
    "stress_tsearch bst_ops env =
       Some (EXIT_SUCCESS, emit [Ev_keep False] (s1\<lparr>keeps := Suc (keeps s1)\<rparr>))"
    "draws s = (K - 1) * ?n" "length (data s) = ?n"
    by blast
  let ?st' = "emit [Ev_keep False] (s1\<lparr>keeps := Suc (keeps s1)\<rparr>)"
  have "draws s1 = (K - 1) * ?n + ?n" using cycle_Inr_fields(4) [OF r(1)] r(3) by simp
  also have "\<dots> = K * ?n" using assms(1) by (cases K) simp_all
  finally have a: "draws ?st' = K * ?n" by simp
  have b: "\<forall>j<?n. data ?st' ! j = tsearch_key (mwc16 env ((K - 1) * ?n + j)) j"
  proof (intro allI impI)
    fix j assume "j < ?n"
    with cycle_Inr_data [OF r(1)] r(3,4)
    show "data ?st' ! j = tsearch_key (mwc16 env ((K - 1) * ?n + j)) j" by simp
  qed
  have c: "\<forall>s. data (drain bst_ops env ?n 0 (lookup bst_ops env ?n 0 s)) = data s"
    by (simp add: drain_fields lookup_fields)
  from r(2) a b c show ?thesis by blast
qed

lemma three_cycles_run:
  "(1::nat) \<le> 3" "\<forall>k<3 - 1. keep env_run k" "\<not> keep env_run (3 - 1)"
  "calloc_ok env_run" "\<forall>k. malloc_ok env_run k"
  by (simp_all add: env_run_def)

theorem keys_redrawn_every_cycle_witness:
  "(1::nat) \<le> 3 \<and> keep env_run 0 \<and> keep env_run 1 \<and> \<not> keep env_run (3 - 1) \<and>
   calloc_ok env_run \<and> (\<forall>k. malloc_ok env_run k) \<and>
   (\<exists>st'. stress_tsearch bst_ops env_run = Some (EXIT_SUCCESS, st') \<and>
      draws st' = 3072 \<and> data st' ! 0 = 4194304)"
proof -
  from keys_redrawn_every_cycle [OF three_cycles_run] obtain st' where r:
    "stress_tsearch bst_ops env_run = Some (EXIT_SUCCESS, st')"
    "draws st' = 3 * tsearch_size env_run"
    "\<forall>j<tsearch_size env_run.
       data st' ! j = tsearch_key (mwc16 env_run ((3 - 1) * tsearch_size env_run + j)) j"
    by blast
  from r(3) have "data st' ! 0 = tsearch_key (mwc16 env_run ((3 - 1) * 1024 + 0)) 0"
    by (simp add: size_run)
  moreover have "mwc16 env_run 2048 = 1" by (simp add: env_run_def)
  ultimately have "data st' ! 0 = 4194304" by (simp add: key_1_0)
  moreover have "draws st' = 3072" using r(2) by (simp add: size_run)
  moreover have "keep env_run 0" "keep env_run 1" by (simp_all add: env_run_def)
  ultimately show ?thesis using r(1) three_cycles_run by blast
qed

text \<open>
  The claim as it is written fails on the run \<open>env_run\<close> of three cycles over 1024
  elements: the run has drawn 3072 values, not 1024, and element 0 of the buffer, which
  the first populate phase set to the key \<open>0\<close> of the first draw, ends as \<open>4194304\<close>.
\<close>

theorem keys_filled_once_counterexample:
  "tsearch_size env_run = 1024 \<and>
   stress_tsearch bst_ops env_run \<noteq> None \<and>
   draws (snd (the (stress_tsearch bst_ops env_run))) = 3072 \<and>
   tsearch_key (mwc16 env_run 0) 0 = 0 \<and>
   data (snd (the (stress_tsearch bst_ops env_run))) ! 0 = 4194304"
proof -
  let ?n = "tsearch_size env_run"
  from stress_tsearch_cycles [OF bst_ops_total three_cycles_run(5,4,2,3)] obtain s s1 where r:
    "cycle bst_ops env_run ?n s = Inr s1"
    "stress_tsearch bst_ops env_run =
       Some (EXIT_SUCCESS, emit [Ev_keep False] (s1\<lparr>keeps := Suc (keeps s1)\<rparr>))"
    "draws s = (3 - 1) * ?n" "length (data s) = ?n"
    by blast
  have d: "draws s1 = 3072" using cycle_Inr_fields(4) [OF r(1)] r(3) by (simp add: size_run)
  have "data s1 ! 0 = tsearch_key (mwc16 env_run (draws s + 0)) 0"
    using r(4) by (intro cycle_Inr_data [OF r(1)]) (simp_all add: size_run)
  moreover have "draws s = 2048" using r(3) by (simp add: size_run)
  moreover have "mwc16 env_run 2048 = 1" by (simp add: env_run_def)
  ultimately have e: "data s1 ! 0 = 4194304" by (simp add: key_1_0)
  have f: "tsearch_key (mwc16 env_run 0) 0 = 0" by (simp add: env_run_def key_0_n)
  from d e f show ?thesis by (simp add: r(2) size_run)
qed

lemma cycle_Inl_log:
  assumes "cycle ops env n st = Inl st'"
  shows "\<exists>f<n. emitted st st' = map Ev_tsearch [0..<Suc f] @ [Ev_err] @ map Ev_tdelete [0..<f]"
proof -
  from assms have "populate ops env n 0 (st\<lparr>root := null ops\<rparr>) = Inl st'"
    by (simp add: cycle_Inl_iff)
  from populate_Inl [OF this] obtain f where f: "f < n"
    "log st' = log st @ map Ev_tsearch [0..<Suc f] @ [Ev_err] @ map Ev_tdelete [0..<f]"
    by auto
  from f(2) have "emitted st st' = map Ev_tsearch [0..<Suc f] @ [Ev_err] @ map Ev_tdelete [0..<f]"
    by (rule emitted_append)
  with f(1) show ?thesis by blast
qed

text \<open>
  Claim C8, as the code has it. The counter never decreases along a run. A cycle
  increments it exactly when its populate phase has inserted all \<open>n\<close> elements and its
  drain phase has deleted all \<open>n\<close> elements, once, after the last \<open>tdelete\<close>; the lookup phase
  in between may have been cut short by the cancellation flag. A cycle whose populate
  phase fails does not increment it.
\<close>

theorem counter_counts_drained_cycles:
  "(\<forall>st'. cycle ops env n st = Inr st' \<longrightarrow>
      counter st' = Suc (counter st) \<and>
      updates (emitted st st') = map Ev_tsearch [0..<n] @ map Ev_tdelete [0..<n] @ [Ev_inc]) \<and>
   (\<forall>st'. cycle ops env n st = Inl st' \<longrightarrow>
      counter st' = counter st \<and> Ev_inc \<notin> set (emitted st st')) \<and>
   (\<forall>st'. do_while ops env n st = Some st' \<longrightarrow> counter st \<le> counter st')"
proof (intro conjI allI impI)
  fix st' assume c: "cycle ops env n st = Inr st'"
  show "counter st' = Suc (counter st)" by (rule cycle_Inr_fields(1) [OF c])
  from cycle_Inr_log [OF c] obtain L where l: "log st' = log st @ L"
    "updates L = map Ev_tsearch [0..<n] @ map Ev_tdelete [0..<n] @ [Ev_inc]"
    by blast
  from l(1) have "emitted st st' = L" by (rule emitted_append)
  with l(2) show "updates (emitted st st') = map Ev_tsearch [0..<n] @ map Ev_tdelete [0..<n] @ [Ev_inc]"
    by simp
next
  fix st' assume c: "cycle ops env n st = Inl st'"
  show "counter st' = counter st" by (rule cycle_Inl_fields(1) [OF c])
  from cycle_Inl_log [OF c] show "Ev_inc \<notin> set (emitted st st')" by auto
next
  fix st' assume "do_while ops env n st = Some st'"
  then show "counter st \<le> counter st'" by (rule do_while_counter_mono)
qed

theorem counter_counts_drained_cycles_witness:
  "cycle bst_ops env_small 2 (init_state bst_ops [0, 0]) =
     Inr \<lparr>data = [20971520, 12582913], root = Leaf, counter = 1, draws = 2, searches = 2,
          flags = 2, keeps = 0,
          log = [Ev_tsearch 0, Ev_tsearch 1, Ev_flag True, Ev_tfind 0, Ev_flag False,
                 Ev_tdelete 0, Ev_tdelete 1, Ev_inc]\<rparr> \<and>
   counter (init_state bst_ops [0, 0]) = 0 \<and>
   updates [Ev_tsearch 0, Ev_tsearch 1, Ev_flag True, Ev_tfind 0, Ev_flag False,
            Ev_tdelete 0, Ev_tdelete 1, Ev_inc] =
     [Ev_tsearch 0, Ev_tsearch 1, Ev_tdelete 0, Ev_tdelete 1, Ev_inc]"
  using counter_counts_drained_cycles [of bst_ops env_small 2 "init_state bst_ops [0, 0]"]
    cycle_small
  by (simp add: emitted_def init_state_def updates_def)

text \<open>
  The claim as it is written fails on the run \<open>env_cancel\<close>, whose cancellation flag is
  down from the start: the single cycle is counted although its lookup phase has looked
  up none of the 1024 elements.
\<close>

theorem counter_full_lookup_counterexample:
  "tsearch_size env_cancel = 1024 \<and>
   stress_tsearch bst_ops env_cancel \<noteq> None \<and>
   counter (snd (the (stress_tsearch bst_ops env_cancel))) = 1 \<and>
   calls (log (snd (the (stress_tsearch bst_ops env_cancel)))) =
     map Ev_tsearch [0..<1024] @ [Ev_flag False] @ map Ev_tdelete [0..<1024] @
     [Ev_inc, Ev_keep False]"
proof -
  let ?n = "tsearch_size env_cancel"
  have h: "\<forall>k. malloc_ok env_cancel k" "calloc_ok env_cancel"
    "\<forall>j<0::nat. keep env_cancel j" "\<not> keep env_cancel 0"
    by (simp_all add: env_cancel_def env_run_def)
  have fl: "\<not> flag env_cancel j" for j by (simp add: env_cancel_def env_run_def)
  from stress_tsearch_cycles [OF bst_ops_total h] obtain s s1 where r:
    "cycle bst_ops env_cancel ?n s = Inr s1"
    "stress_tsearch bst_ops env_cancel =
       Some (EXIT_SUCCESS, emit [Ev_keep False] (s1\<lparr>keeps := Suc (keeps s1)\<rparr>))"
    "counter s = 0" "s = init_state bst_ops (replicate ?n 0)"
    by auto
  from cycle_Inr_log [OF r(1)] obtain k L where k: "\<forall>j<k. flag env_cancel (flags s + j)"
    "log s1 = log s @ L"
    "calls L = map Ev_tsearch [0..<?n] @
               concat (map (\<lambda>j. [Ev_flag True, Ev_tfind j]) [0..<k]) @
               [Ev_flag (flag env_cancel (flags s + k))] @
               map Ev_tdelete [0..<?n] @ [Ev_inc]"
    by blast
  have k0: "k = 0"
  proof (rule ccontr)
    assume "k \<noteq> 0"
    then have "0 < k" by simp
    with k(1) have "flag env_cancel (flags s + 0)" by blast
    with fl show False by blast
  qed
  have ls: "log s = []" by (simp add: r(4) init_state_def)
  have c: "counter s1 = 1" using cycle_Inr_fields(1) [OF r(1)] r(3) by simp
  have "calls (log s1) = map Ev_tsearch [0..<?n] @ [Ev_flag False] @ map Ev_tdelete [0..<?n] @ [Ev_inc]"
    unfolding k(2) ls append_Nil k(3) k0 using fl by simp
  then have "calls (log (emit [Ev_keep False] (s1\<lparr>keeps := Suc (keeps s1)\<rparr>))) =
     map Ev_tsearch [0..<1024] @ [Ev_flag False] @ map Ev_tdelete [0..<1024] @
     [Ev_inc, Ev_keep False]"
    by (simp add: size_cancel del: upt_Suc)
  with c show ?thesis unfolding r(2) by (simp add: size_cancel del: upt_Suc)
qed

text \<open>
  Claim C10, as the code has it. \<open>keep_stressing\<close> is first called after the first cycle.
  On every run that allocates the key buffer and whose first populate phase gets all its
  tree nodes, the first cycle runs to its \<open>inc_counter\<close> without any call of
  \<open>keep_stressing\<close>; if the predicate then says stop the run ends with the counter at 1,
  and whenever the run ends its counter is at least 1.
\<close>

theorem first_cycle_precedes_continuation:
  assumes "calloc_ok env" "\<forall>k<tsearch_size env. malloc_ok env k"
  shows "\<exists>s1. cycle bst_ops env (tsearch_size env)
                (init_state bst_ops (replicate (tsearch_size env) 0)) = Inr s1 \<and>
           counter s1 = 1 \<and> keeps s1 = 0 \<and>
           (\<not> keep env 0 \<longrightarrow>
              stress_tsearch bst_ops env =
                Some (EXIT_SUCCESS, emit [Ev_keep False] (s1\<lparr>keeps := 1\<rparr>))) \<and>
           (\<forall>rc st'. stress_tsearch bst_ops env = Some (rc, st') \<longrightarrow> 1 \<le> counter st')"
proof -
  let ?n = "tsearch_size env"
  let ?st0 = "init_state bst_ops (replicate ?n 0)"
  have z: "searches ?st0 = 0" "counter ?st0 = 0" "keeps ?st0 = 0" by (simp_all add: init_state_def)
  have "\<forall>k. searches ?st0 \<le> k \<and> k < searches ?st0 + ?n \<longrightarrow> malloc_ok env k"
    using assms(2) by (simp add: z)
  from cycle_succeeds [OF bst_ops_total this] obtain s1 where c: "cycle bst_ops env ?n ?st0 = Inr s1"
    by blast
  have c1: "counter s1 = 1" and k1: "keeps s1 = 0"
    using cycle_Inr_fields(1,2) [OF c] z by simp_all
  have st: "stress_tsearch bst_ops env =
      (case do_while bst_ops env ?n ?st0 of None \<Rightarrow> None | Some st \<Rightarrow> Some (EXIT_SUCCESS, st))"
    using assms(1) by (simp add: stress_tsearch_def Let_def)
  have a: "\<not> keep env 0 \<longrightarrow>
      stress_tsearch bst_ops env = Some (EXIT_SUCCESS, emit [Ev_keep False] (s1\<lparr>keeps := 1\<rparr>))"
  proof
    assume "\<not> keep env 0"
    then have "\<not> keep env (keeps s1)" by (simp add: k1)
    from do_while_stop [OF c this] show
      "stress_tsearch bst_ops env = Some (EXIT_SUCCESS, emit [Ev_keep False] (s1\<lparr>keeps := 1\<rparr>))"
      by (simp add: st k1)
  qed
  have b: "\<forall>rc st'. stress_tsearch bst_ops env = Some (rc, st') \<longrightarrow> 1 \<le> counter st'"
  proof (intro allI impI)
    fix rc st' assume "stress_tsearch bst_ops env = Some (rc, st')"
    then have dw: "do_while bst_ops env ?n ?st0 = Some st'"
      by (auto simp: st split: option.splits)
    show "1 \<le> counter st'"
    proof (cases "keep env (keeps s1)")
      case True
      from do_while_again [OF c True] dw
      have "do_while bst_ops env ?n (emit [Ev_keep True] (s1\<lparr>keeps := Suc (keeps s1)\<rparr>)) = Some st'"
        by simp
      from do_while_counter_mono [OF this] c1 show ?thesis by simp
    next
      case False
      from do_while_stop [OF c False] dw c1 show ?thesis by auto
    qed
  qed
  from c c1 k1 a b show ?thesis by blast
qed

theorem first_cycle_precedes_continuation_witness:
  "calloc_ok env_cancel \<and> (\<forall>k. malloc_ok env_cancel k) \<and> \<not> keep env_cancel 0 \<and>
   (\<exists>st'. stress_tsearch bst_ops env_cancel = Some (EXIT_SUCCESS, st') \<and> counter st' = 1)"
proof -
  have h: "calloc_ok env_cancel" "\<forall>k<tsearch_size env_cancel. malloc_ok env_cancel k"
    and m: "\<forall>k. malloc_ok env_cancel k" and k: "\<not> keep env_cancel 0"
    by (simp_all add: env_cancel_def env_run_def)
  from first_cycle_precedes_continuation [OF h] k obtain s1 where
    "counter s1 = 1"
    "stress_tsearch bst_ops env_cancel = Some (EXIT_SUCCESS, emit [Ev_keep False] (s1\<lparr>keeps := 1\<rparr>))"
    by blast
  then have "\<exists>st'. stress_tsearch bst_ops env_cancel = Some (EXIT_SUCCESS, st') \<and> counter st' = 1"
    by simp
  with h(1) m k show ?thesis by blast
qed

text \<open>
  The claim as it is written fails on the run \<open>env_node_fail\<close>: the key buffer is
  allocated, the fourth insertion of the first populate phase finds no memory, and the
  run ends with the counter at 0.
\<close>

theorem one_cycle_always_counterexample:
  "calloc_ok env_node_fail \<and>
   stress_tsearch bst_ops env_node_fail \<noteq> None \<and>
   counter (snd (the (stress_tsearch bst_ops env_node_fail))) = 0"
proof -
  from stress_node_fail obtain d where
    "stress_tsearch bst_ops env_node_fail =
     Some (EXIT_SUCCESS,
           \<lparr>data = d, root = Leaf, counter = 0, draws = 4, searches = 4, flags = 0, keeps = 0,
            log = [Ev_tsearch 0, Ev_tsearch 1, Ev_tsearch 2, Ev_tsearch 3, Ev_err,
                   Ev_tdelete 0, Ev_tdelete 1, Ev_tdelete 2]\<rparr>)" ..
  moreover have "calloc_ok env_node_fail" by (simp add: env_node_fail_def env_run_def)
  ultimately show ?thesis by simp
qed

end
